theory Spec2Isabelle
  imports Main "HOL-Library.Log_Nat"
begin

section \<open>JavaScript values used by the screenshot tool\<close>

text \<open>
  The development embeds \<^verbatim>\<open>search_screenshot.js\<close>.  A JavaScript string is a sequence of
  UTF-16 code units; it is modelled by \<^typ>\<open>string\<close>, one \<^typ>\<open>char\<close> per code unit, which
  covers the code units U+0000 to U+00FF (Latin-1).  All string functions below are exact on
  that range.
\<close>

subsection \<open>Strings\<close>

definition code :: "char \<Rightarrow> nat" where
  "code c = of_char c"

text \<open>White space and line terminators, as \<^verbatim>\<open>String.prototype.trim\<close> and \<^verbatim>\<open>Number\<close> strip
  them: TAB, LF, VT, FF, CR, SP and NBSP.\<close>

definition is_ws :: "char \<Rightarrow> bool" where
  "is_ws c = (code c \<in> {9, 10, 11, 12, 13, 32, 160})"

definition trim :: "string \<Rightarrow> string" where
  "trim s = rev (dropWhile is_ws (rev (dropWhile is_ws s)))"

text \<open>\<^verbatim>\<open>toLowerCase\<close>: A-Z and the Latin-1 capitals U+00C0..U+00DE (without the
  multiplication sign U+00D7) move up by 32; every other code unit stays.\<close>

definition lower_char :: "char \<Rightarrow> char" where
  "lower_char c =
     (let n = code c in
      if (65 \<le> n \<and> n \<le> 90) \<or> (192 \<le> n \<and> n \<le> 222 \<and> n \<noteq> 215)
      then char_of (n + 32) else c)"

definition toLowerCase :: "string \<Rightarrow> string" where
  "toLowerCase s = map lower_char s"

fun startsWith :: "string \<Rightarrow> string \<Rightarrow> bool" where
  "startsWith s [] = True"
| "startsWith [] (p # ps) = False"
| "startsWith (c # cs) (p # ps) = (c = p \<and> startsWith cs ps)"

text \<open>\<^verbatim>\<open>h.includes(n)\<close>: \<open>n\<close> occurs in \<open>h\<close> as a contiguous substring.\<close>

fun includes_str :: "string \<Rightarrow> string \<Rightarrow> bool" where
  "includes_str [] n = (n = [])"
| "includes_str (c # cs) n = (startsWith (c # cs) n \<or> includes_str cs n)"

text \<open>\<^verbatim>\<open>findIndex\<close> returns the first index whose element satisfies the predicate, or \<open>-1\<close>;
  the source only tests the result with \<^verbatim>\<open>>= 0\<close>, so \<open>-1\<close> is \<open>None\<close> here.\<close>

fun findIndex :: "('a \<Rightarrow> bool) \<Rightarrow> 'a list \<Rightarrow> nat option" where
  "findIndex P [] = None"
| "findIndex P (x # xs) =
     (if P x then Some 0 else map_option Suc (findIndex P xs))"

subsection \<open>Numbers and \<^verbatim>\<open>Number(string)\<close>\<close>

text \<open>A JavaScript number is a binary64 value.  The finite ones are rationals; the two zeros
  are identified (they select the same array element and neither is NaN).\<close>

datatype jsnum = NaN | PosInf | NegInf | Fin rat

text \<open>Round a rational to the nearest binary64 value, ties to even: 53 significant bits,
  least quantum \<open>2 powi -1074\<close>, overflow to infinity when the rounded value reaches
  \<open>2 powi 1024\<close>, that is, when its binary logarithm is at least 1024.  \<open>ilog2 x\<close> is the
  integer part of the binary logarithm of \<open>\<bar>x\<bar>\<close>.\<close>

definition ilog2 :: "rat \<Rightarrow> int" where
  "ilog2 x =
     (let (n, d) = quotient_of \<bar>x\<bar>;
          k = int (floorlog 2 (nat n)) - int (floorlog 2 (nat d))
      in if 2 powi k \<le> \<bar>x\<bar> then k else k - 1)"

definition round_even :: "rat \<Rightarrow> int" where
  "round_even q =
     (let f = \<lfloor>q\<rfloor>; r = q - of_int f in
      if r < 1 / 2 then f else if 1 / 2 < r then f + 1
      else if even f then f else f + 1)"

definition to_double :: "rat \<Rightarrow> jsnum" where
  "to_double x =
     (if x = 0 then Fin 0
      else let q = max (ilog2 x - 52) (- 1074);
               y = of_int (round_even (\<bar>x\<bar> / 2 powi q)) * 2 powi q
           in if 1024 \<le> ilog2 y then (if x < 0 then NegInf else PosInf)
              else Fin (if x < 0 then - y else y))"

definition is_digit :: "char \<Rightarrow> bool" where
  "is_digit c = (48 \<le> code c \<and> code c \<le> 57)"

definition digit_val :: "char \<Rightarrow> nat" where
  "digit_val c =
     (let n = code c in
      if 48 \<le> n \<and> n \<le> 57 then n - 48
      else if 97 \<le> n \<and> n \<le> 102 then n - 87
      else if 65 \<le> n \<and> n \<le> 70 then n - 55
      else 16)"

text \<open>The value of a digit string in a base, most significant digit first.\<close>

definition digits_val :: "nat \<Rightarrow> string \<Rightarrow> nat" where
  "digits_val b ds = foldl (\<lambda>a c. a * b + digit_val c) 0 ds"

definition all_digits :: "nat \<Rightarrow> string \<Rightarrow> bool" where
  "all_digits b ds = (ds \<noteq> [] \<and> (\<forall>c \<in> set ds. digit_val c < b))"

text \<open>\<^verbatim>\<open>0x\<close>, \<^verbatim>\<open>0o\<close> and \<^verbatim>\<open>0b\<close> literals (prefix letter in either case, no sign).\<close>

definition nonDecimal :: "string \<Rightarrow> nat option" where
  "nonDecimal s =
     (case s of
        z # p # ds \<Rightarrow>
          (let b = (if p \<in> {CHR ''x'', CHR ''X''} then 16
                    else if p \<in> {CHR ''o'', CHR ''O''} then 8
                    else if p \<in> {CHR ''b'', CHR ''B''} then 2 else 0::nat)
           in if z = CHR ''0'' \<and> b \<noteq> 0 \<and> all_digits b ds
              then Some (digits_val b ds) else None)
      | _ \<Rightarrow> None)"

text \<open>The exponent part: empty, or \<^verbatim>\<open>e\<close>/\<^verbatim>\<open>E\<close>, an optional sign and at least one digit.\<close>

definition exponentPart :: "string \<Rightarrow> int option" where
  "exponentPart s =
     (case s of
        [] \<Rightarrow> Some 0
      | e # r \<Rightarrow>
          if e \<notin> {CHR ''e'', CHR ''E''} then None
          else (case r of
                  [] \<Rightarrow> None
                | sg # ds \<Rightarrow>
                    if sg = CHR ''-'' then
                      (if all_digits 10 ds then Some (- int (digits_val 10 ds)) else None)
                    else if sg = CHR ''+'' then
                      (if all_digits 10 ds then Some (int (digits_val 10 ds)) else None)
                    else
                      (if all_digits 10 r then Some (int (digits_val 10 r)) else None)))"

text \<open>An unsigned decimal literal: \<^verbatim>\<open>Infinity\<close>, or digits with an optional fraction and
  exponent, at least one digit before or after the point.  \<open>None\<close> is a syntax error; the
  inner option is \<open>None\<close> for \<^verbatim>\<open>Infinity\<close> and the exact mathematical value otherwise.\<close>

definition unsignedDecimal :: "string \<Rightarrow> rat option option" where
  "unsignedDecimal s =
     (if s = ''Infinity'' then Some None
      else
        let ip = takeWhile is_digit s; r1 = dropWhile is_digit s;
            has_dot = (r1 \<noteq> [] \<and> hd r1 = CHR ''.'');
            r2 = (if has_dot then tl r1 else r1);
            fp = (if has_dot then takeWhile is_digit r2 else []);
            r3 = (if has_dot then dropWhile is_digit r2 else r2)
        in if ip = [] \<and> fp = [] then None
           else (case exponentPart r3 of
                   None \<Rightarrow> None
                 | Some ex \<Rightarrow>
                     Some (Some (of_nat (digits_val 10 (ip @ fp))
                                 * 10 powi (ex - int (length fp))))))"

definition decimalLiteral :: "string \<Rightarrow> jsnum" where
  "decimalLiteral s =
     (let neg = (s \<noteq> [] \<and> hd s = CHR ''-'');
          signed = (s \<noteq> [] \<and> hd s \<in> {CHR ''+'', CHR ''-''})
      in case unsignedDecimal (if signed then tl s else s) of
           None \<Rightarrow> NaN
         | Some None \<Rightarrow> (if neg then NegInf else PosInf)
         | Some (Some v) \<Rightarrow> to_double (if neg then - v else v))"

text \<open>\<^verbatim>\<open>Number(s)\<close> for a string: surrounding white space is ignored, the empty string is 0.\<close>

definition Number :: "string \<Rightarrow> jsnum" where
  "Number s =
     (let t = trim s in
      if t = [] then Fin 0
      else case nonDecimal t of
             Some n \<Rightarrow> to_double (of_nat n)
           | None \<Rightarrow> decimalLiteral t)"

definition isNaN :: "jsnum \<Rightarrow> bool" where
  "isNaN v = (v = NaN)"

text \<open>\<^verbatim>\<open>xs[v]\<close> for an array and a number: defined exactly when \<open>v\<close> is an integer
  index below the length; everything else reads \<^verbatim>\<open>undefined\<close>.\<close>

fun array_get :: "'a list \<Rightarrow> jsnum \<Rightarrow> 'a option" where
  "array_get xs (Fin v) =
     (if of_int \<lfloor>v\<rfloor> = v \<and> 0 \<le> v \<and> nat \<lfloor>v\<rfloor> < length xs
      then Some (xs ! nat \<lfloor>v\<rfloor>) else None)"
| "array_get xs _ = None"


section \<open>Query extraction\<close>

text \<open>
  The CSV text is split into a header row and data rows by the \<^verbatim>\<open>csv-parser\<close> package.  The
  model starts from what the tool receives from it: the header names \<open>hdrs\<close> of the
  \<^verbatim>\<open>headers\<close> event, and for every data row the array \<^verbatim>\<open>Object.values(row)\<close> of its cells.
\<close>

subsection \<open>Column resolution (the \<^verbatim>\<open>headers\<close> handler)\<close>

text \<open>\<^verbatim>\<open>if (column)\<close>: an absent option and the empty string are both falsy.\<close>

definition truthy :: "string option \<Rightarrow> bool" where
  "truthy column = (case column of None \<Rightarrow> False | Some c \<Rightarrow> c \<noteq> [])"

definition queryColIndex :: "string option \<Rightarrow> string list \<Rightarrow> jsnum" where
  "queryColIndex column hdrs =
     (if truthy column then
        (let c = the column; idx = Number c in
         if \<not> isNaN idx then idx
         else
           (case findIndex (\<lambda>h. toLowerCase h = toLowerCase c) hdrs of
              Some exactMatch \<Rightarrow> Fin (of_nat exactMatch)
            | None \<Rightarrow>
                (case findIndex (\<lambda>h. includes_str (toLowerCase h) (toLowerCase c)) hdrs of
                   Some partialMatch \<Rightarrow> Fin (of_nat partialMatch)
                 | None \<Rightarrow> Fin 0)))
      else
        (case findIndex (\<lambda>h. toLowerCase h = ''query'') hdrs of
           Some queryColMatch \<Rightarrow> Fin (of_nat queryColMatch)
         | None \<Rightarrow> Fin 0))"

subsection \<open>Collecting the queries (second pass)\<close>

text \<open>One row: \<^verbatim>\<open>const query = cols[queryColIndex]; if (query?.trim()) queries.push(query.trim())\<close>.\<close>

definition pushQuery :: "jsnum \<Rightarrow> string list \<Rightarrow> string list" where
  "pushQuery idx cols =
     (case array_get cols idx of
        None \<Rightarrow> []
      | Some query \<Rightarrow> if trim query \<noteq> [] then [trim query] else [])"

primrec queries :: "jsnum \<Rightarrow> string list list \<Rightarrow> string list" where
  "queries idx [] = []"
| "queries idx (row # rows) = pushQuery idx row @ queries idx rows"

section \<open>File names, run directories and URLs\<close>

subsection \<open>The screenshot file name\<close>

text \<open>The character class \<^verbatim>\<open>[a-z0-9 _]\<close> under the \<^verbatim>\<open>i\<close> flag.\<close>

definition safe_char :: "char \<Rightarrow> bool" where
  "safe_char c =
     (let n = code c in
      (97 \<le> n \<and> n \<le> 122) \<or> (65 \<le> n \<and> n \<le> 90) \<or> (48 \<le> n \<and> n \<le> 57)
      \<or> c = CHR '' '' \<or> c = CHR ''_'')"

text \<open>\<^verbatim>\<open>query.replace(/[^a-z0-9 _]/gi, '_').slice(0, 40).trim()\<close>\<close>

definition replace_unsafe :: "string \<Rightarrow> string" where
  "replace_unsafe query = map (\<lambda>c. if safe_char c then c else CHR ''_'') query"

definition safeQuery :: "string \<Rightarrow> string" where
  "safeQuery query = trim (take 40 (replace_unsafe query))"

text \<open>\<^verbatim>\<open>String(n)\<close> for a natural number: its decimal digits.\<close>

function String_of :: "nat \<Rightarrow> string" where
  "String_of n =
     (if n < 10 then [char_of (48 + n)]
      else String_of (n div 10) @ [char_of (48 + n mod 10)])"
  by pat_completeness auto
termination
  by (relation "measure id") auto

declare String_of.simps [simp del]

definition padStart :: "nat \<Rightarrow> char \<Rightarrow> string \<Rightarrow> string" where
  "padStart n c s = replicate (n - length s) c @ s"

definition filename :: "nat \<Rightarrow> string \<Rightarrow> string \<Rightarrow> string \<Rightarrow> string" where
  "filename index eng deviceName query =
     padStart 3 CHR ''0'' (String_of (index + 1)) @ ''_'' @ eng @ ''_'' @ deviceName
       @ ''_'' @ safeQuery query @ ''.jpg''"

subsection \<open>The run directory\<close>

text \<open>A path is kept as the list of the segments handed to \<^verbatim>\<open>path.join\<close>.\<close>

type_synonym path = "string list"

text \<open>\<^verbatim>\<open>.replace(/T/, '-')\<close> replaces the first \<^verbatim>\<open>T\<close> only.\<close>

fun replace_T :: "string \<Rightarrow> string" where
  "replace_T [] = []"
| "replace_T (c # cs) = (if c = CHR ''T'' then CHR ''-'' # cs else c # replace_T cs)"

definition is_line_terminator :: "char \<Rightarrow> bool" where
  "is_line_terminator c = (code c \<in> {10, 13})"

text \<open>\<^verbatim>\<open>.replace(/\..+/, '')\<close>: the first dot that is followed by at least one character
  of the same line is removed together with the rest of that line.\<close>

fun strip_fraction :: "string \<Rightarrow> string" where
  "strip_fraction [] = []"
| "strip_fraction (c # cs) =
     (if c = CHR ''.'' \<and> cs \<noteq> [] \<and> \<not> is_line_terminator (hd cs)
      then dropWhile (\<lambda>d. \<not> is_line_terminator d) cs
      else c # strip_fraction cs)"

definition timestamp :: "string \<Rightarrow> string" where
  "timestamp isoString = strip_fraction (filter (\<lambda>c. c \<noteq> CHR '':'') (replace_T isoString))"

definition runDir :: "string \<Rightarrow> string \<Rightarrow> string" where
  "runDir isoString eng = timestamp isoString @ ''--'' @ eng"

subsection \<open>The search URL\<close>

definition hex_digit :: "nat \<Rightarrow> char" where
  "hex_digit d = (if d < 10 then char_of (48 + d) else char_of (55 + d))"

definition percent :: "nat \<Rightarrow> string" where
  "percent b = [CHR ''%'', hex_digit (b div 16), hex_digit (b mod 16)]"

definition unreserved :: "char \<Rightarrow> bool" where
  "unreserved c =
     (let n = code c in
      (97 \<le> n \<and> n \<le> 122) \<or> (65 \<le> n \<and> n \<le> 90) \<or> (48 \<le> n \<and> n \<le> 57)
      \<or> c \<in> set ''-_.!~*'()'')"

text \<open>\<^verbatim>\<open>encodeURIComponent\<close>: unreserved characters stay, every other code unit is written
  as the percent-escaped bytes of its UTF-8 encoding (one byte below U+0080, two above).\<close>

definition encode_char :: "char \<Rightarrow> string" where
  "encode_char c =
     (let n = code c in
      if unreserved c then [c]
      else if n < 128 then percent n
      else percent (192 + n div 64) @ percent (128 + n mod 64))"

definition encodeURIComponent :: "string \<Rightarrow> string" where
  "encodeURIComponent s = concat (map encode_char s)"

text \<open>The \<^verbatim>\<open>switch (engine)\<close> of \<^verbatim>\<open>processQuery\<close>; an unknown engine takes the Yahoo URL.\<close>

definition searchUrl :: "string \<Rightarrow> string \<Rightarrow> string" where
  "searchUrl eng query =
     (if eng = ''bing'' then ''https://www.bing.com/search?q='' @ encodeURIComponent query
      else if eng = ''duckduckgo'' then ''https://duckduckgo.com/?q='' @ encodeURIComponent query
      else if eng = ''yahoo'' then ''https://search.yahoo.com/search?p='' @ encodeURIComponent query
      else if eng = ''google'' then ''https://www.google.com/search?q='' @ encodeURIComponent query
      else ''https://search.yahoo.com/search?p='' @ encodeURIComponent query)"


section \<open>The capture pipeline\<close>

subsection \<open>Arguments, browser behaviour and traces\<close>

text \<open>The argument object built from the command line.\<close>

record args =
  csvFile :: string
  output_arg :: string
  column :: "string option"
  engine :: string
  delay :: rat
  mode :: string
  useChrome :: bool
  compareMode :: bool
  quality :: rat

text \<open>
  The browser is outside the program.  What it does with one page is a value of type
  \<open>page\<close>: whether each call on the page resolves or throws, what the CAPTCHA check
  returns (\<open>None\<close> when \<^verbatim>\<open>page.evaluate\<close> throws), the value drawn for the random wait and
  the viewport width.
\<close>

record page =
  newPage_ok :: bool
  goto_ok :: bool
  randomWait :: nat
  randomWait_ok :: bool
  networkidle_ok :: bool
  hasCaptcha :: "bool option"
  captchaWait_ok :: bool
  delay_ok :: bool
  viewportWidth :: "nat option"
  screenshot_ok :: bool
  close_ok :: bool

text \<open>The console lines that tell how an attempt ended.\<close>

datatype message =
    CaptchaManual
  | CaptchaDetected
  | Saved path
  | AttemptFailed nat
  | Failed

text \<open>
  The calls of \<^verbatim>\<open>processQuery\<close>, in the order they are made.  The three
  \<^verbatim>\<open>page.waitForTimeout\<close> call sites are kept apart: \<open>RandomWait\<close> after navigation,
  \<open>CaptchaWait\<close> for a manual solve, \<open>DelayWait\<close> before the capture (all in milliseconds).
  \<open>Backoff\<close> is the \<^verbatim>\<open>setTimeout\<close> of the \<^verbatim>\<open>catch\<close> block.
\<close>

datatype event =
    NewPage
  | Goto string
  | RandomWait nat
  | WaitForLoadState
  | Evaluate
  | CaptchaWait nat
  | DelayWait rat
  | Screenshot path rat nat
  | Console message
  | Backoff nat
  | ClosePage

text \<open>How a block ends: normally, by \<^verbatim>\<open>continue\<close>, or by a thrown exception.  For an
  \<^verbatim>\<open>async\<close> function \<open>Normal\<close> is a resolved promise and \<open>Throw\<close> a rejected one.\<close>

datatype completion = Normal | Continue | Throw

text \<open>One awaited call: it is recorded, and throws unless \<open>ok\<close>.\<close>

definition call :: "'e \<Rightarrow> bool \<Rightarrow> 'e list \<times> completion" where
  "call e ok = ([e], if ok then Normal else Throw)"

text \<open>Sequencing: the second block runs only when the first ends normally.\<close>

definition andThen :: "'e list \<times> completion \<Rightarrow> 'e list \<times> completion \<Rightarrow> 'e list \<times> completion" where
  "andThen r1 r2 = (if snd r1 = Normal then (fst r1 @ fst r2, snd r2) else r1)"

subsection \<open>One query: \<^verbatim>\<open>processQuery\<close>\<close>

definition maxRetries :: nat where
  "maxRetries = 2"

text \<open>\<^verbatim>\<open>deviceName === 'mobile' ? page.viewportSize()?.width || 390 : 1920\<close>\<close>

definition clipWidth :: "string \<Rightarrow> page \<Rightarrow> nat" where
  "clipWidth deviceName p =
     (if deviceName = ''mobile''
      then (case viewportWidth p of None \<Rightarrow> 390 | Some w \<Rightarrow> if w = 0 then 390 else w)
      else 1920)"

text \<open>The \<^verbatim>\<open>try\<close> block of one attempt.\<close>

definition tryBlock ::
  "string \<Rightarrow> string \<Rightarrow> path \<Rightarrow> rat \<Rightarrow> bool \<Rightarrow> rat \<Rightarrow> page \<Rightarrow> event list \<times> completion" where
  "tryBlock url deviceName filepath dly chrome qual p =
     andThen (call (Goto url) (goto_ok p))
    (andThen (call (RandomWait (randomWait p)) (randomWait_ok p))
    (andThen (call WaitForLoadState (networkidle_ok p))
    (andThen (call Evaluate (hasCaptcha p \<noteq> None))
    (andThen
       (if hasCaptcha p = Some True then
          (if chrome then
             andThen ([Console CaptchaManual], Normal) (call (CaptchaWait 30000) (captchaWait_ok p))
           else ([Console CaptchaDetected], Continue))
        else ([], Normal))
    (andThen (call (DelayWait (dly * 1000)) (delay_ok p))
    (andThen (call (Screenshot filepath qual (clipWidth deviceName p)) (screenshot_ok p))
       ([Console (Saved filepath)], Normal)))))))"

text \<open>
  One pass through the body of the \<^verbatim>\<open>while\<close> loop, from \<open>retries\<close>.  The page is opened
  before the \<^verbatim>\<open>try\<close>; the \<^verbatim>\<open>catch\<close> block counts the retry and either backs off or
  reports the failure; the \<^verbatim>\<open>finally\<close> block closes the page.  The result is the trace, the
  new values of \<open>retries\<close> and \<open>success\<close>, and whether an exception left the loop body.
\<close>

definition iteration ::
  "string \<Rightarrow> string \<Rightarrow> path \<Rightarrow> rat \<Rightarrow> bool \<Rightarrow> rat \<Rightarrow> page \<Rightarrow> nat
     \<Rightarrow> event list \<times> nat \<times> bool \<times> bool" where
  "iteration url deviceName filepath dly chrome qual p retries =
     (if \<not> newPage_ok p then ([NewPage], retries, False, True)
      else
        (case tryBlock url deviceName filepath dly chrome qual p of
           (es, Normal) \<Rightarrow> (NewPage # es @ [ClosePage], retries, True, \<not> close_ok p)
         | (es, Continue) \<Rightarrow> (NewPage # es @ [ClosePage], retries + 1, False, \<not> close_ok p)
         | (es, Throw) \<Rightarrow>
             (if retries + 1 \<le> maxRetries
              then (NewPage # es @ [Console (AttemptFailed (retries + 1)), Backoff 1000, ClosePage],
                    retries + 1, False, \<not> close_ok p)
              else (NewPage # es @ [Console Failed, ClosePage],
                    retries + 1, False, \<not> close_ok p))))"

text \<open>\<^verbatim>\<open>while (retries <= maxRetries && !success)\<close>; \<open>pages k\<close> is the page that the \<open>k\<close>-th
  call of \<^verbatim>\<open>context.newPage()\<close> in this task yields.\<close>

function whileLoop ::
  "string \<Rightarrow> string \<Rightarrow> path \<Rightarrow> rat \<Rightarrow> bool \<Rightarrow> rat \<Rightarrow> (nat \<Rightarrow> page) \<Rightarrow> nat \<Rightarrow> nat \<Rightarrow> bool
     \<Rightarrow> event list \<times> completion" where
  "whileLoop url deviceName filepath dly chrome qual pages k retries success =
     (if retries \<le> maxRetries \<and> \<not> success then
        (case iteration url deviceName filepath dly chrome qual (pages k) retries of
           (es, retries', success', threw) \<Rightarrow>
             if threw then (es, Throw)
             else andThen (es, Normal)
                    (whileLoop url deviceName filepath dly chrome qual pages (k + 1) retries' success'))
      else ([], Normal))"
  by pat_completeness auto
termination
  by (relation "measure (\<lambda>(url, deviceName, filepath, dly, chrome, qual, pages, k, retries, success).
          if success then 0 else maxRetries + 2 - retries)")
     (auto simp: iteration_def maxRetries_def split: if_splits prod.splits completion.splits)

declare whileLoop.simps [simp del]

definition processQuery ::
  "string \<Rightarrow> nat \<Rightarrow> string \<Rightarrow> string \<Rightarrow> (nat \<Rightarrow> page) \<Rightarrow> path \<Rightarrow> rat \<Rightarrow> bool \<Rightarrow> rat
     \<Rightarrow> event list \<times> completion" where
  "processQuery query index eng deviceName pages out dly chrome qual =
     (let filepath = out @ [filename index eng deviceName query]
      in whileLoop (searchUrl eng query) deviceName filepath dly chrome qual pages 0 0 False)"

text \<open>The number of attempts of a task is the number of pages it opened.\<close>

definition attempts :: "event list \<Rightarrow> nat" where
  "attempts es = length (filter (\<lambda>e. e = NewPage) es)"


subsection \<open>One run: \<^verbatim>\<open>generateSearchScreenshots\<close>\<close>

text \<open>
  What lies outside the program during one run: the clock (\<^verbatim>\<open>new Date().toISOString()\<close>),
  the file system, the parsed CSV (\<open>None\<close> when the stream reports an error) and the
  browser.  \<open>pages i k\<close> is the page opened by the \<open>k\<close>-th attempt of the query with
  sequence index \<open>i\<close>.  The file is read twice, once for the header names and once for the
  rows.  A stream that ends without a \<^verbatim>\<open>headers\<close> event and without an error leaves the run
  pending for ever; such a stream is outside this model.
\<close>

record session =
  now :: string
  cwd :: string
  mkdir_ok :: bool
  headers :: "string list option"
  rows :: "string list list option"
  profileDir_ok :: bool
  launch_ok :: bool
  newContext_ok :: bool
  pages :: "nat \<Rightarrow> nat \<Rightarrow> page"
  contextClose_ok :: bool
  browserClose_ok :: bool

text \<open>A task is one call of \<^verbatim>\<open>processQuery\<close>: the query and index it was given, and what
  it did.\<close>

datatype task = Task (t_query: string) (t_index: nat) (t_events: "event list") (t_end: completion)

text \<open>The calls of a run.  \<open>Batch\<close> holds the tasks started together and awaited by one
  \<^verbatim>\<open>Promise.all\<close>; the order in which their calls interleave is left open.\<close>

datatype run_event =
    Mkdir path
  | ReadHeaders
  | ReadRows
  | LaunchPersistentContext path
  | Launch
  | NewContext
  | Batch "task list"
  | ContextClose
  | BrowserClose

text \<open>\<^verbatim>\<open>batch.map((query, batchIndex) => processQuery(query, i + batchIndex, ...))\<close>\<close>

definition batchTasks ::
  "string \<Rightarrow> string \<Rightarrow> (nat \<Rightarrow> nat \<Rightarrow> page) \<Rightarrow> path \<Rightarrow> rat \<Rightarrow> bool \<Rightarrow> rat
     \<Rightarrow> nat \<Rightarrow> string list \<Rightarrow> task list" where
  "batchTasks eng deviceName pgs outputDir dly chrome qual i batch =
     map (\<lambda>(batchIndex, query).
            (case processQuery query (i + batchIndex) eng deviceName (pgs (i + batchIndex))
                    outputDir dly chrome qual of
               (es, c) \<Rightarrow> Task query (i + batchIndex) es c))
         (enumerate 0 batch)"

text \<open>\<^verbatim>\<open>Promise.all\<close> rejects as soon as one of its promises rejects.  All tasks of the
  batch have been started by then; their calls are recorded in full, although the process
  may end before the others finish.\<close>

definition promiseAll :: "task list \<Rightarrow> completion" where
  "promiseAll ts = (if \<forall>t \<in> set ts. t_end t = Normal then Normal else Throw)"

text \<open>The batch loop, with \<^verbatim>\<open>batchSize = useChrome ? 1 : 3\<close>.\<close>

definition batchSize :: "bool \<Rightarrow> nat" where
  "batchSize chrome = (if chrome then 1 else 3)"

function batchLoop ::
  "string \<Rightarrow> string \<Rightarrow> (nat \<Rightarrow> nat \<Rightarrow> page) \<Rightarrow> path \<Rightarrow> rat \<Rightarrow> bool \<Rightarrow> rat
     \<Rightarrow> string list \<Rightarrow> nat \<Rightarrow> run_event list \<times> completion" where
  "batchLoop eng deviceName pgs outputDir dly chrome qual qs i =
     (if i < length qs then
        (let batch = take (batchSize chrome) (drop i qs);
             ts = batchTasks eng deviceName pgs outputDir dly chrome qual i batch
         in andThen ([Batch ts], promiseAll ts)
              (batchLoop eng deviceName pgs outputDir dly chrome qual qs (i + batchSize chrome)))
      else ([], Normal))"
  by pat_completeness auto
termination
  by (relation "measure (\<lambda>(eng, deviceName, pgs, outputDir, dly, chrome, qual, qs, i).
          length qs - i)")
     (auto simp: batchSize_def)

declare batchLoop.simps [simp del]

text \<open>Browser and context acquisition: a persistent Chrome profile when \<open>shouldUseChrome\<close>,
  a headless browser with a fresh context otherwise.\<close>

definition acquire :: "bool \<Rightarrow> session \<Rightarrow> run_event list \<times> completion" where
  "acquire shouldUseChrome s =
     (if shouldUseChrome then
        andThen (call (Mkdir [cwd s, ''chrome-data-dir'']) (profileDir_ok s))
                (call (LaunchPersistentContext [cwd s, ''chrome-data-dir'']) (launch_ok s))
      else
        andThen (call Launch (launch_ok s)) (call NewContext (newContext_ok s)))"

definition generateSearchScreenshots :: "args \<Rightarrow> session \<Rightarrow> run_event list \<times> completion" where
  "generateSearchScreenshots a s =
     (let outputDir = [output_arg a, runDir (now s) (engine a)] in
      andThen (call (Mkdir outputDir) (mkdir_ok s))
        (case headers s of
           None \<Rightarrow> call ReadHeaders False
         | Some hdrs \<Rightarrow>
             andThen (call ReadHeaders True)
               (case rows s of
                  None \<Rightarrow> call ReadRows False
                | Some rws \<Rightarrow>
                    andThen (call ReadRows True)
                      (let qs = queries (queryColIndex (column a) hdrs) rws;
                           deviceName = (if mode a = ''mobile'' then ''mobile'' else ''desktop'');
                           shouldUseChrome = (useChrome a \<and> engine a = ''google'')
                       in andThen (acquire shouldUseChrome s)
                         (andThen (batchLoop (engine a) deviceName (pages s) outputDir (delay a)
                                     (useChrome a) (quality a) qs 0)
                         (andThen (call ContextClose (contextClose_ok s))
                            (if \<not> useChrome a then call BrowserClose (browserClose_ok s)
                             else ([], Normal))))))))"

subsection \<open>Compare mode and the entry point\<close>

text \<open>A pass is one call of \<^verbatim>\<open>generateSearchScreenshots\<close>: the arguments it was given and
  its trace.  The second call is made only after the first has resolved.\<close>

datatype pass = Pass (p_args: args) (p_events: "run_event list")

definition runPass :: "args \<Rightarrow> session \<Rightarrow> pass list \<times> completion" where
  "runPass a s =
     (case generateSearchScreenshots a s of (es, c) \<Rightarrow> ([Pass a es], c))"

definition runCompareMode :: "args \<Rightarrow> session \<Rightarrow> session \<Rightarrow> pass list \<times> completion" where
  "runCompareMode a s1 s2 =
     (let yahooArgs = a\<lparr>engine := ''yahoo'', useChrome := False\<rparr>;
          compareEngine = (if engine a = ''yahoo'' then ''google'' else engine a);
          useChrome' = (if compareEngine = ''google'' then useChrome a else False);
          compareArgs = a\<lparr>engine := compareEngine, useChrome := useChrome'\<rparr>
      in andThen (runPass yahooArgs s1) (runPass compareArgs s2))"

definition main :: "args \<Rightarrow> session \<Rightarrow> session \<Rightarrow> pass list \<times> completion" where
  "main a s1 s2 = (if compareMode a then runCompareMode a s1 s2 else runPass a s1)"

section \<open>Notions used to state the properties\<close>

text \<open>\<open>i\<close> is the first position of \<open>xs\<close> whose element satisfies \<open>P\<close>.\<close>

definition first_index :: "('a \<Rightarrow> bool) \<Rightarrow> 'a list \<Rightarrow> nat \<Rightarrow> bool" where
  "first_index P xs i = (i < length xs \<and> P (xs ! i) \<and> (\<forall>j<i. \<not> P (xs ! j)))"

text \<open>A number is a position among \<open>n\<close> columns when it is finite and lies in \<open>[0, n)\<close>.\<close>

fun in_range :: "jsnum \<Rightarrow> nat \<Rightarrow> bool" where
  "in_range (Fin v) n = (0 \<le> v \<and> v < of_nat n)"
| "in_range _ n = False"


text \<open>The events a \<^verbatim>\<open>try\<close> block can produce: every event but the page opening and closing and
  the events of the \<^verbatim>\<open>catch\<close> block.\<close>

definition in_try :: "event \<Rightarrow> bool" where
  "in_try e = (e \<noteq> NewPage \<and> e \<noteq> ClosePage \<and> e \<noteq> Console Failed
               \<and> (\<forall>n. e \<noteq> Backoff n) \<and> (\<forall>n. e \<noteq> Console (AttemptFailed n)))"

text \<open>The page opens and loads, and the CAPTCHA check finds a challenge.\<close>

definition captcha_seen :: "page \<Rightarrow> bool" where
  "captcha_seen p =
     (newPage_ok p \<and> goto_ok p \<and> randomWait_ok p \<and> networkidle_ok p \<and> hasCaptcha p = Some True)"

text \<open>The batches of a run in order, the tasks of a run in order, and what a task was
  given: its query and its sequence index.\<close>

fun batches_of :: "run_event list \<Rightarrow> task list list" where
  "batches_of [] = []"
| "batches_of (Batch ts # es) = ts # batches_of es"
| "batches_of (e # es) = batches_of es"

definition tasks_of :: "run_event list \<Rightarrow> task list" where
  "tasks_of es = concat (batches_of es)"

definition given :: "task \<Rightarrow> string \<times> nat" where
  "given t = (t_query t, t_index t)"

text \<open>The calls of an attempt that ends at the CAPTCHA check.\<close>

definition captcha_event :: "string \<Rightarrow> event \<Rightarrow> bool" where
  "captcha_event url e =
     (e \<in> {NewPage, Goto url, WaitForLoadState, Evaluate, Console CaptchaDetected, ClosePage}
      \<or> (\<exists>n. e = RandomWait n))"

text \<open>
  The life cycle of the capture session as an automaton over the calls of a run.  Files are
  read before the session exists; the session comes to life by one persistent-context launch
  or by one browser launch followed by one context creation; batches run only while it is
  alive; closing the context ends it, and only the browser may be closed after that.
\<close>

datatype phase = NoSession | Launched | Live | Closing | Closed

fun lifecycle :: "phase \<Rightarrow> run_event list \<Rightarrow> bool" where
  "lifecycle ph [] = True"
| "lifecycle NoSession (Mkdir d # es) = lifecycle NoSession es"
| "lifecycle NoSession (ReadHeaders # es) = lifecycle NoSession es"
| "lifecycle NoSession (ReadRows # es) = lifecycle NoSession es"
| "lifecycle NoSession (Launch # es) = lifecycle Launched es"
| "lifecycle NoSession (LaunchPersistentContext d # es) = lifecycle Live es"
| "lifecycle Launched (NewContext # es) = lifecycle Live es"
| "lifecycle Live (Batch ts # es) = lifecycle Live es"
| "lifecycle Live (ContextClose # es) = lifecycle Closing es"
| "lifecycle Closing (BrowserClose # es) = lifecycle Closed es"
| "lifecycle ph (e # es) = False"

subsection \<open>Sample inputs\<close>

text \<open>A page on which every call succeeds, a run in which everything succeeds, and the
  command-line defaults with the column selector \<^verbatim>\<open>query\<close>; then variations of them.\<close>

definition page_ok :: page where
  "page_ok = \<lparr>newPage_ok = True, goto_ok = True, randomWait = 700, randomWait_ok = True,
      networkidle_ok = True, hasCaptcha = Some False, captchaWait_ok = True, delay_ok = True,
      viewportWidth = Some 390, screenshot_ok = True, close_ok = True\<rparr>"

definition session_ok :: session where
  "session_ok = \<lparr>now = ''2024-05-01T10:15:00.000Z'', cwd = ''/home/user'', mkdir_ok = True,
      headers = Some [''query'', ''date''],
      rows = Some [[''foo'', ''2024''], [''bar'', ''2025'']],
      profileDir_ok = True, launch_ok = True, newContext_ok = True,
      pages = (\<lambda>i k. page_ok), contextClose_ok = True, browserClose_ok = True\<rparr>"

definition args_default :: args where
  "args_default = \<lparr>csvFile = ''queries.csv'', output_arg = ''search_screenshots'',
      column = Some ''query'', engine = ''yahoo'', delay = 1, mode = ''mobile'',
      useChrome = False, compareMode = False, quality = 80\<rparr>"

definition args_bing_chrome :: args where
  "args_bing_chrome = args_default\<lparr>engine := ''bing'', useChrome := True\<rparr>"

definition args_google_chrome :: args where
  "args_google_chrome = args_default\<lparr>engine := ''google'', useChrome := True\<rparr>"

definition args_compare_yahoo :: args where
  "args_compare_yahoo = args_default\<lparr>compareMode := True\<rparr>"

definition pages_first_fails :: "nat \<Rightarrow> nat \<Rightarrow> page" where
  "pages_first_fails i k = (if i = 0 then page_ok\<lparr>newPage_ok := False\<rparr> else page_ok)"

definition session_first_fails :: session where
  "session_first_fails = session_ok\<lparr>
      headers := Some [''query''],
      rows := Some [[''foo''], [''bar''], [''baz''], [''qux'']],
      pages := pages_first_fails\<rparr>"

definition pages_close_fails :: "nat \<Rightarrow> nat \<Rightarrow> page" where
  "pages_close_fails i k = (if i = 1 then page_ok\<lparr>close_ok := False\<rparr> else page_ok)"

definition session_close_fails :: session where
  "session_close_fails = session_ok\<lparr>pages := pages_close_fails\<rparr>"

definition pages_captcha_once :: "nat \<Rightarrow> page" where
  "pages_captcha_once k = (if k = 0 then page_ok\<lparr>hasCaptcha := Some True\<rparr> else page_ok)"

definition pages_never_load :: "nat \<Rightarrow> page" where
  "pages_never_load k = page_ok\<lparr>goto_ok := False\<rparr>"

definition pages_never_open :: "nat \<Rightarrow> page" where
  "pages_never_open k = page_ok\<lparr>newPage_ok := False\<rparr>"

definition pages_captcha_always :: "nat \<Rightarrow> page" where
  "pages_captcha_always k = page_ok\<lparr>hasCaptcha := Some True\<rparr>"

section \<open>Auxiliary facts about strings and lists\<close>



lemma last_dropWhile: "dropWhile P xs \<noteq> [] \<Longrightarrow> last (dropWhile P xs) = last xs"
  by (induction xs) (auto split: if_splits)

lemma trim_ends:
  assumes "trim s \<noteq> []"
  shows "\<not> is_ws (hd (trim s))" and "\<not> is_ws (last (trim s))"
proof -
  let ?a = "dropWhile is_ws s"
  let ?b = "dropWhile is_ws (rev ?a)"
  have t: "trim s = rev ?b" by (simp add: trim_def)
  from assms t have b: "?b \<noteq> []" by simp
  have a: "?a \<noteq> []"
  proof
    assume "?a = []"
    then have "?b = []" by (simp only: rev.simps dropWhile.simps)
    with b show False by simp
  qed
  have "last ?b = last (rev ?a)" using b by (rule last_dropWhile)
  also have "\<dots> = hd ?a" using a by (simp add: last_rev)
  finally have "hd (trim s) = hd ?a" using b t by (simp add: hd_rev)
  then show "\<not> is_ws (hd (trim s))" using a hd_dropWhile[of is_ws s] by simp
  have "last (trim s) = hd ?b" using b t by (simp add: last_rev)
  then show "\<not> is_ws (last (trim s))" using b hd_dropWhile[of is_ws "rev ?a"] by simp
qed



lemma findIndex_Some: "findIndex P xs = Some i \<longleftrightarrow> (i < length xs \<and> P (xs ! i) \<and> (\<forall>j<i. \<not> P (xs ! j)))"
proof (induction xs arbitrary: i)
  case Nil then show ?case by simp
next
  case (Cons x xs)
  show ?case
  proof (cases "P x")
    case True
    then show ?thesis by (cases i) auto
  next
    case False
    show ?thesis
    proof (cases i)
      case 0 then show ?thesis using False by auto
    next
      case (Suc n)
      have "(\<forall>j<Suc n. \<not> P ((x # xs) ! j)) \<longleftrightarrow> (\<forall>j<n. \<not> P (xs ! j))"
        using False by (auto simp: less_Suc_eq_0_disj)
      then show ?thesis using False Suc Cons.IH[of n] by auto
    qed
  qed
qed

lemma findIndex_None: "findIndex P xs = None \<longleftrightarrow> (\<forall>x \<in> set xs. \<not> P x)"
  by (induction xs) auto

lemma startsWith_iff: "startsWith s p \<longleftrightarrow> (\<exists>r. s = p @ r)"
  by (induction s p rule: startsWith.induct) auto

lemma includes_str_iff: "includes_str h n \<longleftrightarrow> (\<exists>p s. h = p @ n @ s)"
proof (induction h)
  case Nil then show ?case by auto
next
  case (Cons c cs)
  show ?case
  proof
    assume "includes_str (c # cs) n"
    then consider "startsWith (c # cs) n" | "includes_str cs n" by auto
    then show "\<exists>p s. c # cs = p @ n @ s"
    proof cases
      case 1 then obtain r where "c # cs = n @ r" by (auto simp: startsWith_iff)
      then have "c # cs = [] @ n @ r" by simp
      then show ?thesis by blast
    next
      case 2 then obtain p s where "cs = p @ n @ s" using Cons.IH by auto
      then have "c # cs = (c # p) @ n @ s" by simp
      then show ?thesis by blast
    qed
  next
    assume "\<exists>p s. c # cs = p @ n @ s"
    then obtain p s where e: "c # cs = p @ n @ s" by auto
    show "includes_str (c # cs) n"
    proof (cases p)
      case Nil
      then have "startsWith (c # cs) n" using e by (simp add: startsWith_iff)
      then show ?thesis by simp
    next
      case (Cons a p') then have "cs = p' @ n @ s" using e by simp
      then show ?thesis using Cons.IH by auto
    qed
  qed
qed

section \<open>Facts about query extraction\<close>




lemma array_get_outside:
  "\<not> in_range idx n \<Longrightarrow> length r \<le> n \<Longrightarrow> array_get r idx = None"
proof (cases idx)
  case (Fin v)
  assume a: "\<not> in_range idx n" and l: "length r \<le> n"
  show ?thesis
  proof (cases "of_int \<lfloor>v\<rfloor> = v \<and> 0 \<le> v \<and> nat \<lfloor>v\<rfloor> < length r")
    case True
    then have "nat \<lfloor>v\<rfloor> < n" using l by simp
    moreover have "0 \<le> \<lfloor>v\<rfloor>" using True by simp
    ultimately have "\<lfloor>v\<rfloor> < int n" by simp
    then have "(of_int \<lfloor>v\<rfloor> :: rat) < of_int (int n)" by (simp only: of_int_less_iff)
    then have "v < of_nat n" using True by simp
    then show ?thesis using a Fin True by simp
  next
    case False then show ?thesis using Fin by simp
  qed
qed simp_all

lemma queries_outside:
  "\<not> in_range idx n \<Longrightarrow> \<forall>r \<in> set rws. length r \<le> n \<Longrightarrow> queries idx rws = []"
  by (induction rws) (simp_all add: pushQuery_def array_get_outside)

lemma queryColIndex_numeric:
  "c \<noteq> [] \<Longrightarrow> Number c \<noteq> NaN \<Longrightarrow> queryColIndex (Some c) hdrs = Number c"
  by (simp add: queryColIndex_def truthy_def isNaN_def Let_def)

lemma queryColIndex_exact:
  "c \<noteq> [] \<Longrightarrow> Number c = NaN \<Longrightarrow> first_index (\<lambda>h. toLowerCase h = toLowerCase c) hdrs i
     \<Longrightarrow> queryColIndex (Some c) hdrs = Fin (of_nat i)"
  using findIndex_Some[of "\<lambda>h. toLowerCase h = toLowerCase c" hdrs i]
  by (simp add: queryColIndex_def truthy_def isNaN_def Let_def first_index_def)

lemma queryColIndex_partial:
  assumes "c \<noteq> []" "Number c = NaN" "\<forall>h \<in> set hdrs. toLowerCase h \<noteq> toLowerCase c"
    and "first_index (\<lambda>h. \<exists>p s. toLowerCase h = p @ toLowerCase c @ s) hdrs i"
  shows "queryColIndex (Some c) hdrs = Fin (of_nat i)"
proof -
  have 1: "findIndex (\<lambda>h. toLowerCase h = toLowerCase c) hdrs = None"
    using assms(3) by (simp add: findIndex_None)
  have 2: "findIndex (\<lambda>h. includes_str (toLowerCase h) (toLowerCase c)) hdrs = Some i"
    using assms(4) by (simp add: findIndex_Some first_index_def includes_str_iff)
  show ?thesis using assms(1,2) by (simp add: queryColIndex_def truthy_def isNaN_def Let_def 1 2)
qed

lemma queryColIndex_default:
  assumes "c \<noteq> []" "Number c = NaN" "\<forall>h \<in> set hdrs. toLowerCase h \<noteq> toLowerCase c"
    and "\<forall>h \<in> set hdrs. \<not> (\<exists>p s. toLowerCase h = p @ toLowerCase c @ s)"
  shows "queryColIndex (Some c) hdrs = Fin 0"
proof -
  have 1: "findIndex (\<lambda>h. toLowerCase h = toLowerCase c) hdrs = None"
    using assms(3) by (simp add: findIndex_None)
  have 2: "findIndex (\<lambda>h. includes_str (toLowerCase h) (toLowerCase c)) hdrs = None"
    using assms(4) by (simp add: findIndex_None includes_str_iff)
  show ?thesis using assms(1,2) by (simp add: queryColIndex_def truthy_def isNaN_def Let_def 1 2)
qed


lemma queries_undefined:
  "\<forall>r \<in> set rws. array_get r idx = None \<Longrightarrow> queries idx rws = []"
  by (induction rws) (simp_all add: pushQuery_def)

lemma queries_everywhere_outside:
  "\<forall>m. \<not> in_range idx m \<Longrightarrow> queries idx rws = []"
proof (rule queries_undefined, rule ballI)
  fix r :: "string list"
  assume "\<forall>m. \<not> in_range idx m"
  then have "\<not> in_range idx (length r)" by simp
  then show "array_get r idx = None" by (rule array_get_outside) simp
qed

lemma queries_cell:
  "j < length r \<Longrightarrow> trim (r ! j) \<noteq> [] \<Longrightarrow> queries (Fin (of_nat j)) [r] = [trim (r ! j)]"
  by (simp add: pushQuery_def)

section \<open>Facts about file names\<close>


lemma length_trim: "length (trim s) \<le> length s"
proof -
  have "length (dropWhile is_ws (rev (dropWhile is_ws s))) \<le> length (rev (dropWhile is_ws s))"
    by (rule length_dropWhile_le)
  moreover have "length (dropWhile is_ws s) \<le> length s"
    by (rule length_dropWhile_le)
  ultimately show ?thesis by (simp add: trim_def)
qed

lemma set_trim: "set (trim s) \<subseteq> set s"
proof
  fix c assume "c \<in> set (trim s)"
  then have "c \<in> set (dropWhile is_ws (rev (dropWhile is_ws s)))" by (simp add: trim_def)
  then have "c \<in> set (rev (dropWhile is_ws s))" by (rule set_dropWhileD)
  then have "c \<in> set (dropWhile is_ws s)" by simp
  then show "c \<in> set s" by (rule set_dropWhileD)
qed

lemma safe_underscore: "safe_char CHR ''_''"
  by (simp add: safe_char_def)

lemma replace_unsafe_safe: "c \<in> set (replace_unsafe q) \<Longrightarrow> safe_char c"
  by (auto simp: replace_unsafe_def safe_underscore)

lemma replace_unsafe_nth:
  "i < length q \<Longrightarrow> replace_unsafe q ! i = (if safe_char (q ! i) then q ! i else CHR ''_'')"
  by (simp add: replace_unsafe_def)

lemma safeQuery_length: "length (safeQuery q) \<le> 40"
proof -
  have "length (safeQuery q) \<le> length (take 40 (replace_unsafe q))"
    unfolding safeQuery_def by (rule length_trim)
  then show ?thesis by simp
qed

lemma safeQuery_safe: "c \<in> set (safeQuery q) \<Longrightarrow> safe_char c"
proof -
  assume "c \<in> set (safeQuery q)"
  then have "c \<in> set (take 40 (replace_unsafe q))" using set_trim unfolding safeQuery_def by blast
  then have "c \<in> set (replace_unsafe q)" by (rule in_set_takeD)
  then show ?thesis by (rule replace_unsafe_safe)
qed

lemma is_ws_space: "is_ws CHR '' ''"
  by (simp add: is_ws_def code_def)

lemma safeQuery_ends:
  "safeQuery q \<noteq> [] \<Longrightarrow> hd (safeQuery q) \<noteq> CHR '' '' \<and> last (safeQuery q) \<noteq> CHR '' ''"
  unfolding safeQuery_def using trim_ends[of "take 40 (replace_unsafe q)"] is_ws_space by metis

lemma digit_val_char_of: "(d::nat) < 10 \<Longrightarrow> digit_val (char_of (48 + d)) = d"
  by (simp add: digit_val_def code_def Let_def)

lemma is_digit_char_of: "(d::nat) < 10 \<Longrightarrow> is_digit (char_of (48 + d))"
  by (simp add: is_digit_def code_def)

lemma digits_val_snoc: "digits_val b (ds @ [c]) = digits_val b ds * b + digit_val c"
  by (simp add: digits_val_def)

lemma digits_val_String_of: "digits_val 10 (String_of n) = n"
proof (induction n rule: String_of.induct)
  case (1 n)
  show ?case
  proof (cases "n < 10")
    case True
    then show ?thesis by (subst String_of.simps) (simp add: digits_val_def digit_val_char_of)
  next
    case False
    then have "digits_val 10 (String_of (n div 10)) = n div 10" using 1 by simp
    then show ?thesis using False
      by (subst String_of.simps) (simp add: digits_val_snoc digit_val_char_of)
  qed
qed

lemma String_of_digits: "c \<in> set (String_of n) \<Longrightarrow> is_digit c"
proof (induction n rule: String_of.induct)
  case (1 n)
  show ?case
  proof (cases "n < 10")
    case True
    then show ?thesis using "1.prems" by (subst (asm) String_of.simps) (simp add: is_digit_char_of)
  next
    case False
    then show ?thesis using 1
      by (subst (asm) (2) String_of.simps) (auto simp: is_digit_char_of)
  qed
qed

lemma String_of_length1: "n < 10 \<Longrightarrow> length (String_of n) = 1"
  by (subst String_of.simps) simp

lemma String_of_length2: "n < 100 \<Longrightarrow> length (String_of n) \<le> 2"
proof -
  assume "n < 100"
  then have "n div 10 < 10" by arith
  then have "length (String_of (n div 10)) = 1" by (rule String_of_length1)
  then show ?thesis by (subst String_of.simps) simp
qed

lemma String_of_length: "n < 1000 \<Longrightarrow> length (String_of n) \<le> 3"
proof -
  assume "n < 1000"
  then have "n div 10 < 100" by arith
  then have "length (String_of (n div 10)) \<le> 2" by (rule String_of_length2)
  then show ?thesis by (subst String_of.simps) simp
qed

lemma digits_val_zeros: "digits_val 10 (replicate k CHR ''0'' @ ds) = digits_val 10 ds"
proof -
  have z: "foldl (\<lambda>a c. a * 10 + digit_val c) 0 (replicate k CHR ''0'') = 0"
    by (induction k) (simp_all add: digit_val_def code_def)
  show ?thesis by (simp add: digits_val_def z)
qed

lemma padStart_value: "digits_val 10 (padStart 3 CHR ''0'' (String_of n)) = n"
  by (simp add: padStart_def digits_val_zeros digits_val_String_of)

lemma padStart_length: "3 \<le> length (padStart 3 c s)"
  by (simp add: padStart_def)

lemma padStart_length3: "n < 1000 \<Longrightarrow> length (padStart 3 c (String_of n)) = 3"
  using String_of_length[of n] by (simp add: padStart_def)

lemma padStart_digits: "c \<in> set (padStart 3 CHR ''0'' (String_of n)) \<Longrightarrow> is_digit c"
proof -
  assume "c \<in> set (padStart 3 CHR ''0'' (String_of n))"
  then consider "c = CHR ''0''" | "c \<in> set (String_of n)"
    by (auto simp: padStart_def)
  then show ?thesis
  proof cases
    case 1 then show ?thesis by (simp add: is_digit_def code_def)
  next
    case 2 then show ?thesis by (rule String_of_digits)
  qed
qed


section \<open>The file name of a screenshot\<close>

text \<open>
  C7, as the code has it.  \<open>filename\<close> is a function of the sequence index, the engine, the
  device name and the query alone, so equal arguments give the same string.  The string is the
  index plus one in decimal, padded with zeros to at least three digits, then the engine, the
  device name and the sanitized query joined by underscores, then \<^verbatim>\<open>.jpg\<close>.  The sanitized
  query is obtained in three steps: every character outside \<^verbatim>\<open>[a-zA-Z0-9 _]\<close> becomes an
  underscore, the result is cut to its first 40 characters, and then white space at both ends
  of the cut string is removed.  It therefore has at most 40 characters, all of them in the
  class, and neither begins nor ends with a space.
\<close>

theorem filename_form:
  "filename index eng dev q =
       padStart 3 CHR ''0'' (String_of (index + 1)) @ ''_'' @ eng @ ''_'' @ dev @ ''_''
         @ safeQuery q @ ''.jpg''
   \<and> digits_val 10 (padStart 3 CHR ''0'' (String_of (index + 1))) = index + 1
   \<and> (\<forall>c \<in> set (padStart 3 CHR ''0'' (String_of (index + 1))). is_digit c)
   \<and> 3 \<le> length (padStart 3 CHR ''0'' (String_of (index + 1)))
   \<and> (index + 1 < 1000 \<longrightarrow> length (padStart 3 CHR ''0'' (String_of (index + 1))) = 3)
   \<and> safeQuery q = trim (take 40 (replace_unsafe q))
   \<and> length (replace_unsafe q) = length q
   \<and> (\<forall>i < length q. replace_unsafe q ! i = (if safe_char (q ! i) then q ! i else CHR ''_''))
   \<and> length (safeQuery q) \<le> 40
   \<and> (\<forall>c \<in> set (safeQuery q). safe_char c)
   \<and> (safeQuery q \<noteq> [] \<longrightarrow> hd (safeQuery q) \<noteq> CHR '' '' \<and> last (safeQuery q) \<noteq> CHR '' '')"
proof -
  have 1: "filename index eng dev q =
       padStart 3 CHR ''0'' (String_of (index + 1)) @ ''_'' @ eng @ ''_'' @ dev @ ''_''
         @ safeQuery q @ ''.jpg''"
    by (simp add: filename_def)
  have 2: "digits_val 10 (padStart 3 CHR ''0'' (String_of (index + 1))) = index + 1"
    by (rule padStart_value)
  have 3: "\<forall>c \<in> set (padStart 3 CHR ''0'' (String_of (index + 1))). is_digit c"
    using padStart_digits by blast
  have 4: "3 \<le> length (padStart 3 CHR ''0'' (String_of (index + 1)))"
    by (rule padStart_length)
  have 5: "index + 1 < 1000 \<longrightarrow> length (padStart 3 CHR ''0'' (String_of (index + 1))) = 3"
    using padStart_length3 by blast
  have 6: "safeQuery q = trim (take 40 (replace_unsafe q))"
    by (simp add: safeQuery_def)
  have 7: "length (replace_unsafe q) = length q"
    by (simp add: replace_unsafe_def)
  have 8: "\<forall>i < length q. replace_unsafe q ! i = (if safe_char (q ! i) then q ! i else CHR ''_'')"
    using replace_unsafe_nth by blast
  have 9: "length (safeQuery q) \<le> 40"
    by (rule safeQuery_length)
  have 10: "\<forall>c \<in> set (safeQuery q). safe_char c"
    using safeQuery_safe by blast
  have 11: "safeQuery q \<noteq> [] \<longrightarrow> hd (safeQuery q) \<noteq> CHR '' '' \<and> last (safeQuery q) \<noteq> CHR '' ''"
    using safeQuery_ends by blast
  from 1 2 3 4 5 6 7 8 9 10 11 show ?thesis by blast
qed

text \<open>The form at a query with punctuation, at sequence index 11.\<close>

theorem filename_form_witness:
  "filename 11 ''yahoo'' ''desktop'' ''what is c++ / c#?'' = ''012_yahoo_desktop_what is c__ _ c__.jpg''
   \<and> (11::nat) + 1 < 1000
   \<and> length (padStart 3 CHR ''0'' (String_of (11 + 1))) = 3
   \<and> safeQuery ''what is c++ / c#?'' \<noteq> []
   \<and> last (safeQuery ''what is c++ / c#?'') \<noteq> CHR '' ''"
proof -
  have v: "filename 11 ''yahoo'' ''desktop'' ''what is c++ / c#?''
        = ''012_yahoo_desktop_what is c__ _ c__.jpg''"
    by code_simp
  have n: "safeQuery ''what is c++ / c#?'' \<noteq> []"
    by code_simp
  have b: "(11::nat) + 1 < 1000" by simp
  from filename_form [of 11 "''yahoo''" "''desktop''" "''what is c++ / c#?''"]
  have "length (padStart 3 CHR ''0'' (String_of (11 + 1))) = 3"
    and "last (safeQuery ''what is c++ / c#?'') \<noteq> CHR '' ''"
    using b n by blast+
  with v n b show ?thesis by blast
qed

text \<open>
  Without the final trimming the claim fails: the first 40 characters of this query end in a
  space, which the file name does not contain.
\<close>

theorem filename_untrimmed_counterexample:
  "filename 0 ''yahoo'' ''desktop'' ''how to make a very good vegetable soups for dinner''
     \<noteq> ''001_yahoo_desktop_''
        @ take 40 (replace_unsafe ''how to make a very good vegetable soups for dinner'')
        @ ''.jpg''"
  by code_simp

section \<open>Column resolution\<close>

text \<open>
  C8.  For a selector \<open>c\<close> that is given (not empty; an empty or absent selector takes the
  default branch, which looks for a header named \<^verbatim>\<open>query\<close>): when \<^verbatim>\<open>Number(c)\<close> is not NaN that
  number is the column index, whatever the headers are; otherwise the index is the first header
  equal to \<open>c\<close> up to letter case; when there is none, the first header that contains \<open>c\<close> up
  to letter case; when there is none either, 0.  For the headers \<^verbatim>\<open>notes, query, date\<close> the
  selectors \<^verbatim>\<open>query\<close>, \<^verbatim>\<open>1\<close> and \<^verbatim>\<open>doesnotexist\<close> resolve to 1, 1 and 0.
\<close>

theorem column_resolution:
  assumes "c \<noteq> []"
  shows
  "(Number c \<noteq> NaN \<longrightarrow> queryColIndex (Some c) hdrs = Number c)
   \<and> (Number c = NaN \<longrightarrow>
        (\<forall>i. first_index (\<lambda>h. toLowerCase h = toLowerCase c) hdrs i
              \<longrightarrow> queryColIndex (Some c) hdrs = Fin (of_nat i))
      \<and> ((\<forall>h \<in> set hdrs. toLowerCase h \<noteq> toLowerCase c) \<longrightarrow>
           (\<forall>i. first_index (\<lambda>h. \<exists>p s. toLowerCase h = p @ toLowerCase c @ s) hdrs i
                 \<longrightarrow> queryColIndex (Some c) hdrs = Fin (of_nat i))
         \<and> ((\<forall>h \<in> set hdrs. \<not> (\<exists>p s. toLowerCase h = p @ toLowerCase c @ s))
              \<longrightarrow> queryColIndex (Some c) hdrs = Fin 0)))
   \<and> queryColIndex (Some ''query'') [''notes'', ''query'', ''date''] = Fin 1
   \<and> queryColIndex (Some ''1'') [''notes'', ''query'', ''date''] = Fin 1
   \<and> queryColIndex (Some ''doesnotexist'') [''notes'', ''query'', ''date''] = Fin 0"
proof -
  have e1: "queryColIndex (Some ''query'') [''notes'', ''query'', ''date''] = Fin 1"
    by code_simp
  have e2: "queryColIndex (Some ''1'') [''notes'', ''query'', ''date''] = Fin 1"
    by code_simp
  have e3: "queryColIndex (Some ''doesnotexist'') [''notes'', ''query'', ''date''] = Fin 0"
    by code_simp
  have 1: "Number c \<noteq> NaN \<longrightarrow> queryColIndex (Some c) hdrs = Number c"
    using assms queryColIndex_numeric by blast
  have 2: "Number c = NaN \<longrightarrow>
        (\<forall>i. first_index (\<lambda>h. toLowerCase h = toLowerCase c) hdrs i
              \<longrightarrow> queryColIndex (Some c) hdrs = Fin (of_nat i))"
    using assms queryColIndex_exact by blast
  have 3: "Number c = NaN \<longrightarrow> (\<forall>h \<in> set hdrs. toLowerCase h \<noteq> toLowerCase c) \<longrightarrow>
        (\<forall>i. first_index (\<lambda>h. \<exists>p s. toLowerCase h = p @ toLowerCase c @ s) hdrs i
              \<longrightarrow> queryColIndex (Some c) hdrs = Fin (of_nat i))"
    using assms queryColIndex_partial by blast
  have 4: "Number c = NaN \<longrightarrow> (\<forall>h \<in> set hdrs. toLowerCase h \<noteq> toLowerCase c) \<longrightarrow>
        (\<forall>h \<in> set hdrs. \<not> (\<exists>p s. toLowerCase h = p @ toLowerCase c @ s))
              \<longrightarrow> queryColIndex (Some c) hdrs = Fin 0"
    using assms queryColIndex_default by blast
  from 1 2 3 4 e1 e2 e3 show ?thesis by blast
qed

text \<open>
  The four branches at concrete selectors: a numeral wins although a header bears that very
  name; an exact match in another letter case; a substring match; no match at all.
\<close>

theorem column_resolution_witness:
  "''2'' \<noteq> [] \<and> Number ''2'' \<noteq> NaN
   \<and> queryColIndex (Some ''2'') [''2'', ''query'', ''date''] = Fin 2
   \<and> Number ''QUERY'' = NaN
   \<and> queryColIndex (Some ''QUERY'') [''notes'', ''Query'', ''date''] = Fin 1
   \<and> queryColIndex (Some ''ate'') [''notes'', ''Query'', ''date''] = Fin 2
   \<and> queryColIndex (Some ''zzz'') [''notes'', ''Query'', ''date''] = Fin 0"
proof -
  let ?H = "[''notes'', ''Query'', ''date'']"
  have n2: "Number ''2'' = Fin 2" by code_simp
  then have n2': "Number ''2'' \<noteq> NaN" by simp
  have e2: "''2'' \<noteq> []" by simp
  have "queryColIndex (Some ''2'') [''2'', ''query'', ''date''] = Number ''2''"
    using column_resolution [OF e2, of "[''2'', ''query'', ''date'']"] n2' by blast
  then have r1: "queryColIndex (Some ''2'') [''2'', ''query'', ''date''] = Fin 2"
    using n2 by simp
  have nq: "Number ''QUERY'' = NaN" by code_simp
  have "findIndex (\<lambda>h. toLowerCase h = toLowerCase ''QUERY'') ?H = Some 1" by code_simp
  then have fq: "first_index (\<lambda>h. toLowerCase h = toLowerCase ''QUERY'') ?H 1"
    unfolding first_index_def findIndex_Some .
  have eq: "''QUERY'' \<noteq> []" by simp
  have "queryColIndex (Some ''QUERY'') ?H = Fin (of_nat 1)"
    using column_resolution [OF eq, of ?H] nq fq by blast
  then have r2: "queryColIndex (Some ''QUERY'') ?H = Fin 1" by simp
  have na: "Number ''ate'' = NaN" by code_simp
  have "findIndex (\<lambda>h. toLowerCase h = toLowerCase ''ate'') ?H = None" by code_simp
  then have xa: "\<forall>h \<in> set ?H. toLowerCase h \<noteq> toLowerCase ''ate''"
    unfolding findIndex_None .
  have "findIndex (\<lambda>h. includes_str (toLowerCase h) (toLowerCase ''ate'')) ?H = Some 2" by code_simp
  then have fa: "first_index (\<lambda>h. \<exists>p s. toLowerCase h = p @ toLowerCase ''ate'' @ s) ?H 2"
    unfolding first_index_def findIndex_Some includes_str_iff .
  have ea: "''ate'' \<noteq> []" by simp
  have "queryColIndex (Some ''ate'') ?H = Fin (of_nat 2)"
    using column_resolution [OF ea, of ?H] na xa fa by blast
  then have r3: "queryColIndex (Some ''ate'') ?H = Fin 2" by simp
  have nz: "Number ''zzz'' = NaN" by code_simp
  have "findIndex (\<lambda>h. toLowerCase h = toLowerCase ''zzz'') ?H = None" by code_simp
  then have xz: "\<forall>h \<in> set ?H. toLowerCase h \<noteq> toLowerCase ''zzz''"
    unfolding findIndex_None .
  have "findIndex (\<lambda>h. includes_str (toLowerCase h) (toLowerCase ''zzz'')) ?H = None" by code_simp
  then have pz: "\<forall>h \<in> set ?H. \<not> (\<exists>p s. toLowerCase h = p @ toLowerCase ''zzz'' @ s)"
    unfolding findIndex_None includes_str_iff .
  have ez: "''zzz'' \<noteq> []" by simp
  have r4: "queryColIndex (Some ''zzz'') ?H = Fin 0"
    using column_resolution [OF ez, of ?H] nz xz pz by blast
  from e2 n2' r1 nq r2 r3 r4 show ?thesis by (simp only: simp_thms)
qed

section \<open>Query extraction\<close>



section \<open>Numeric selectors are not checked against the number of columns\<close>

text \<open>
  C10, as the code has it.  For a selector \<open>c\<close> that is given and numeric, the number itself
  is the column index: there is no bounds check and column 0 is not substituted.  When the
  number is not a position among the columns (negative, at least the number of columns, or
  infinite) and no row has more cells than there are columns, the selected cell of every row
  is undefined, the extraction yields the empty sequence, and the batch loop over it does
  nothing and ends normally.  When the number is negative or infinite, the extraction is empty
  whatever the rows are.  But a row is read at the index
  whatever the number of columns is: a row that has a non-blank cell at that position
  contributes it.
\<close>

theorem numeric_index_unchecked:
  assumes "c \<noteq> []" and "Number c \<noteq> NaN"
  shows
  "queryColIndex (Some c) hdrs = Number c
   \<and> (\<not> in_range (Number c) (length hdrs) \<and> (\<forall>r \<in> set rws. length r \<le> length hdrs)
        \<longrightarrow> (\<forall>r \<in> set rws. array_get r (queryColIndex (Some c) hdrs) = None)
            \<and> queries (queryColIndex (Some c) hdrs) rws = []
            \<and> batchLoop eng dev pgs out dly chrome qual
                 (queries (queryColIndex (Some c) hdrs) rws) 0 = ([], Normal))
   \<and> ((\<exists>v. v < 0 \<and> Number c = Fin v) \<or> Number c = PosInf \<or> Number c = NegInf
        \<longrightarrow> queries (queryColIndex (Some c) hdrs) rws = [])
   \<and> (Number c = Fin (of_nat j) \<and> j < length row \<and> trim (row ! j) \<noteq> []
        \<longrightarrow> queries (queryColIndex (Some c) hdrs) [row] = [trim (row ! j)])"
proof -
  have 1: "queryColIndex (Some c) hdrs = Number c"
    using assms by (rule queryColIndex_numeric)
  have 2: "\<not> in_range (Number c) (length hdrs) \<and> (\<forall>r \<in> set rws. length r \<le> length hdrs)
        \<longrightarrow> (\<forall>r \<in> set rws. array_get r (Number c) = None)
            \<and> queries (Number c) rws = []
            \<and> batchLoop eng dev pgs out dly chrome qual (queries (Number c) rws) 0 = ([], Normal)"
  proof
    assume H: "\<not> in_range (Number c) (length hdrs) \<and> (\<forall>r \<in> set rws. length r \<le> length hdrs)"
    have a: "\<forall>r \<in> set rws. array_get r (Number c) = None"
      using H array_get_outside by blast
    have b: "queries (Number c) rws = []"
      using H queries_outside by blast
    have d: "batchLoop eng dev pgs out dly chrome qual [] 0 = ([], Normal)"
      by (subst batchLoop.simps) simp
    from a b d show "(\<forall>r \<in> set rws. array_get r (Number c) = None)
            \<and> queries (Number c) rws = []
            \<and> batchLoop eng dev pgs out dly chrome qual (queries (Number c) rws) 0 = ([], Normal)"
      by simp
  qed
  have 3: "(\<exists>v. v < 0 \<and> Number c = Fin v) \<or> Number c = PosInf \<or> Number c = NegInf
        \<longrightarrow> queries (Number c) rws = []"
  proof
    assume "(\<exists>v. v < 0 \<and> Number c = Fin v) \<or> Number c = PosInf \<or> Number c = NegInf"
    then have "\<forall>m. \<not> in_range (Number c) m" by auto
    then show "queries (Number c) rws = []" by (rule queries_everywhere_outside)
  qed
  have 4: "Number c = Fin (of_nat j) \<and> j < length row \<and> trim (row ! j) \<noteq> []
        \<longrightarrow> queries (Number c) [row] = [trim (row ! j)]"
    using queries_cell[of j row] by auto
  from 2 3 4 show ?thesis unfolding 1 by (simp only: simp_thms)
qed

text \<open>Three columns and the selectors \<^verbatim>\<open>7\<close> and \<^verbatim>\<open>-1\<close>; then the selector \<^verbatim>\<open>1\<close> on a row with
  a cell at position 1.\<close>

theorem numeric_index_unchecked_witness:
  "''7'' \<noteq> [] \<and> Number ''7'' = Fin 7 \<and> \<not> in_range (Fin 7) 3
   \<and> queryColIndex (Some ''7'') [''notes'', ''query'', ''date''] = Fin 7
   \<and> queries (queryColIndex (Some ''7'') [''notes'', ''query'', ''date''])
        [[''n1'', ''foo'', ''2024''], [''n2'', ''bar'', ''2025'']] = []
   \<and> Number ''-1'' = Fin (- 1)
   \<and> queries (queryColIndex (Some ''-1'') [''notes'', ''query'', ''date''])
        [[''n1'', ''foo'', ''2024''], [''n2'', ''bar'', ''2025'']] = []
   \<and> Number ''1'' = Fin 1
   \<and> queries (queryColIndex (Some ''1'') [''notes'', ''query'', ''date''])
        [[''n1'', ''foo'', ''2024'']] = [''foo'']"
proof -
  let ?H = "[''notes'', ''query'', ''date'']"
  let ?R = "[[''n1'', ''foo'', ''2024''], [''n2'', ''bar'', ''2025'']]"
  have n7: "Number ''7'' = Fin 7" by code_simp
  have m1: "Number ''-1'' = Fin (- 1)" by code_simp
  have n1: "Number ''1'' = Fin 1" by code_simp
  have w: "\<forall>r \<in> set ?R. length r \<le> length ?H" by simp
  have r7: "\<not> in_range (Number ''7'') (length ?H)" using n7 by simp
  have d7: "Number ''7'' \<noteq> NaN" using n7 by simp
  have d1: "Number ''-1'' \<noteq> NaN" using m1 by simp
  have p1: "Number ''1'' \<noteq> NaN" using n1 by simp
  have e7: "''7'' \<noteq> []" and e1: "''-1'' \<noteq> []" and f1: "''1'' \<noteq> []" by simp_all
  have a1: "queryColIndex (Some ''7'') ?H = Number ''7''"
    using numeric_index_unchecked [OF e7 d7] by blast
  have a2: "queries (queryColIndex (Some ''7'') ?H) ?R = []"
    using numeric_index_unchecked [OF e7 d7, of ?H ?R] r7 w by blast
  have "\<exists>v. v < 0 \<and> Number ''-1'' = Fin v" using m1 by simp
  then have b: "queries (queryColIndex (Some ''-1'') ?H) ?R = []"
    using numeric_index_unchecked [OF e1 d1, of ?H ?R] by blast
  have t: "trim ([''n1'', ''foo'', ''2024''] ! 1) = ''foo''" by code_simp
  have "Number ''1'' = Fin (of_nat 1)" using n1 by simp
  moreover have "(1::nat) < length [''n1'', ''foo'', ''2024'']" by simp
  moreover have "trim ([''n1'', ''foo'', ''2024''] ! 1) \<noteq> []" using t by simp
  ultimately have "queries (queryColIndex (Some ''1'') ?H) [[''n1'', ''foo'', ''2024'']]
      = [trim ([''n1'', ''foo'', ''2024''] ! 1)]"
    using numeric_index_unchecked [OF f1 p1, of ?H _ _ _ _ _ _ _ _ 1 "[''n1'', ''foo'', ''2024'']"]
    by blast
  then have c: "queries (queryColIndex (Some ''1'') ?H) [[''n1'', ''foo'', ''2024'']] = [''foo'']"
    using t by simp
  have i7: "\<not> in_range (Fin 7) 3" by simp
  from n7 m1 n1 a1 a2 b c i7 e7 show ?thesis by (simp only: simp_thms)
qed

text \<open>
  The claim as stated fails on a row that is longer than the header.  Two columns, the
  selector \<^verbatim>\<open>2\<close> and a row of three cells: the index is out of bounds for the header, yet the
  third cell is extracted.
\<close>

theorem ragged_row_counterexample:
  "queryColIndex (Some ''2'') [''a'', ''b''] = Fin 2
   \<and> \<not> in_range (Fin 2) (length [''a'', ''b''])
   \<and> queries (queryColIndex (Some ''2'') [''a'', ''b'']) [[''x'', ''y'', ''z'']] = [''z'']"
  by code_simp

section \<open>Facts about the retry loop\<close>

lemma fst_andThen: "fst (andThen r1 r2) = (if snd r1 = Normal then fst r1 @ fst r2 else fst r1)"
  by (simp add: andThen_def)

lemma snd_andThen: "snd (andThen r1 r2) = (if snd r1 = Normal then snd r2 else snd r1)"
  by (simp add: andThen_def)

lemma andThen_Normal: "andThen (es, Normal) r = (es @ fst r, snd r)"
  by (simp add: andThen_def)

lemma attempts_append: "attempts (xs @ ys) = attempts xs + attempts ys"
  by (simp add: attempts_def)

lemma set_andThen: "set (fst (andThen r1 r2)) \<subseteq> set (fst r1) \<union> set (fst r2)"
  by (auto simp: andThen_def)

lemma in_try_andThen:
  "\<forall>e \<in> set (fst r1). in_try e \<Longrightarrow> \<forall>e \<in> set (fst r2). in_try e
     \<Longrightarrow> \<forall>e \<in> set (fst (andThen r1 r2)). in_try e"
  by (auto simp: andThen_def)

lemma in_try_call: "in_try e \<Longrightarrow> \<forall>x \<in> set (fst (call e ok)). in_try x"
  by (simp add: call_def)

lemma tryBlock_events: "\<forall>e \<in> set (fst (tryBlock url dev fp dly chrome qual p)). in_try e"
  unfolding tryBlock_def
  by (intro in_try_andThen in_try_call) (simp_all add: in_try_def andThen_def call_def)

lemma attempts_in_try: "\<forall>e \<in> set es. in_try e \<Longrightarrow> attempts es = 0"
  by (induction es) (auto simp: attempts_def in_try_def)

lemma attempts_tryBlock: "attempts (fst (tryBlock url dev fp dly chrome qual p)) = 0"
  by (rule attempts_in_try) (rule tryBlock_events)

lemma iteration_cases:
  obtains
    (not_opened) "\<not> newPage_ok p"
      "iteration url dev fp dly chrome qual p r = ([NewPage], r, False, True)"
  | (succeeded) es where "newPage_ok p" "tryBlock url dev fp dly chrome qual p = (es, Normal)"
      "iteration url dev fp dly chrome qual p r = (NewPage # es @ [ClosePage], r, True, \<not> close_ok p)"
  | (continued) es where "newPage_ok p" "tryBlock url dev fp dly chrome qual p = (es, Continue)"
      "iteration url dev fp dly chrome qual p r
         = (NewPage # es @ [ClosePage], r + 1, False, \<not> close_ok p)"
  | (retried) es where "newPage_ok p" "tryBlock url dev fp dly chrome qual p = (es, Throw)"
      "r + 1 \<le> maxRetries"
      "iteration url dev fp dly chrome qual p r
         = (NewPage # es @ [Console (AttemptFailed (r + 1)), Backoff 1000, ClosePage],
            r + 1, False, \<not> close_ok p)"
  | (exhausted) es where "newPage_ok p" "tryBlock url dev fp dly chrome qual p = (es, Throw)"
      "\<not> r + 1 \<le> maxRetries"
      "iteration url dev fp dly chrome qual p r
         = (NewPage # es @ [Console Failed, ClosePage], r + 1, False, \<not> close_ok p)"
proof (cases "newPage_ok p")
  case False
  then show ?thesis using not_opened by (simp add: iteration_def)
next
  case True
  obtain es c where t: "tryBlock url dev fp dly chrome qual p = (es, c)"
    by (cases "tryBlock url dev fp dly chrome qual p")
  show ?thesis
  proof (cases c)
    case Normal then show ?thesis using True t succeeded by (simp add: iteration_def)
  next
    case Continue then show ?thesis using True t continued by (simp add: iteration_def)
  next
    case Throw
    then show ?thesis using True t retried exhausted by (cases "r + 1 \<le> maxRetries") (simp_all add: iteration_def)
  qed
qed

lemma attempts_iteration:
  "attempts (fst (iteration url dev fp dly chrome qual p r)) = 1"
proof (cases rule: iteration_cases[of p url dev fp dly chrome qual r])
  case not_opened then show ?thesis by (simp add: attempts_def)
next
  case (succeeded es)
  then show ?thesis using attempts_tryBlock[of url dev fp dly chrome qual p]
    by (simp add: attempts_def)
next
  case (continued es)
  then show ?thesis using attempts_tryBlock[of url dev fp dly chrome qual p]
    by (simp add: attempts_def)
next
  case (retried es)
  then show ?thesis using attempts_tryBlock[of url dev fp dly chrome qual p]
    by (simp add: attempts_def)
next
  case (exhausted es)
  then show ?thesis using attempts_tryBlock[of url dev fp dly chrome qual p]
    by (simp add: attempts_def)
qed

lemma iteration_progress:
  "iteration url dev fp dly chrome qual p r = (es, r', s', threw)
     \<Longrightarrow> (s' \<and> r' = r) \<or> (\<not> s' \<and> r' = r + 1) \<or> (threw \<and> r' = r \<and> \<not> s')"
  by (cases rule: iteration_cases[of p url dev fp dly chrome qual r]) auto

lemma whileLoop_unfold:
  "r \<le> maxRetries \<Longrightarrow>
   iteration url dev fp dly chrome qual (ps k) r = (es, r', s', threw) \<Longrightarrow>
   whileLoop url dev fp dly chrome qual ps k r False
     = (if threw then (es, Throw)
        else (es @ fst (whileLoop url dev fp dly chrome qual ps (k + 1) r' s'),
              snd (whileLoop url dev fp dly chrome qual ps (k + 1) r' s')))"
  by (subst whileLoop.simps) (simp add: andThen_def)

lemma whileLoop_exit:
  assumes "\<not> (r \<le> maxRetries \<and> \<not> s)"
  shows "whileLoop url dev fp dly chrome qual ps k r s = ([], Normal)"
  by (subst whileLoop.simps) (simp only: assms if_False)

lemma attempts_whileLoop_le:
  "attempts (fst (whileLoop url dev fp dly chrome qual ps k r s)) \<le> maxRetries + 1 - r"
proof (induction url dev fp dly chrome qual ps k r s rule: whileLoop.induct)
  case (1 url dev fp dly chrome qual ps k r s)
  show ?case
  proof (cases "r \<le> maxRetries \<and> \<not> s")
    case False
    then show ?thesis by (simp add: whileLoop_exit attempts_def)
  next
    case True
    obtain es r' s' threw where it: "iteration url dev fp dly chrome qual (ps k) r = (es, r', s', threw)"
      by (cases "iteration url dev fp dly chrome qual (ps k) r") auto
    have a1: "attempts es = 1" using attempts_iteration[of url dev fp dly chrome qual "ps k" r] it by simp
    show ?thesis
    proof (cases threw)
      case True
      with \<open>r \<le> maxRetries \<and> \<not> s\<close> it a1 show ?thesis by (auto simp: whileLoop_unfold)
    next
      case False
      have ih: "attempts (fst (whileLoop url dev fp dly chrome qual ps (k + 1) r' s')) \<le> maxRetries + 1 - r'"
        using "1.IH"[OF True it[symmetric] refl refl] False by simp
      from iteration_progress[OF it] False consider "s'" "r' = r" | "\<not> s'" "r' = r + 1" by auto
      then show ?thesis
      proof cases
        case 1
        then show ?thesis using True it a1 False
          by (auto simp: whileLoop_unfold whileLoop_exit attempts_append attempts_def)
      next
        case 2
        then show ?thesis using True it a1 False ih
          by (auto simp: whileLoop_unfold attempts_append)
      qed
    qed
  qed
qed

lemma attempts_whileLoop_ge:
  "r \<le> maxRetries \<Longrightarrow> 1 \<le> attempts (fst (whileLoop url dev fp dly chrome qual ps k r False))"
proof -
  assume r: "r \<le> maxRetries"
  obtain es r' s' threw where it: "iteration url dev fp dly chrome qual (ps k) r = (es, r', s', threw)"
    by (cases "iteration url dev fp dly chrome qual (ps k) r") auto
  have a1: "attempts es = 1" using attempts_iteration[of url dev fp dly chrome qual "ps k" r] it by simp
  show ?thesis using r it a1 by (simp add: whileLoop_unfold attempts_append)
qed

lemma whileLoop_no_escape:
  "\<forall>k. newPage_ok (ps k) \<and> close_ok (ps k)
     \<Longrightarrow> snd (whileLoop url dev fp dly chrome qual ps k r s) = Normal"
proof (induction url dev fp dly chrome qual ps k r s rule: whileLoop.induct)
  case (1 url dev fp dly chrome qual ps k r s)
  show ?case
  proof (cases "r \<le> maxRetries \<and> \<not> s")
    case False
    then show ?thesis by (simp add: whileLoop_exit)
  next
    case True
    obtain es r' s' threw where it: "iteration url dev fp dly chrome qual (ps k) r = (es, r', s', threw)"
      by (cases "iteration url dev fp dly chrome qual (ps k) r") auto
    have nt: "\<not> threw"
      using it "1.prems" by (cases rule: iteration_cases[of "ps k" url dev fp dly chrome qual r]) auto
    have "snd (whileLoop url dev fp dly chrome qual ps (k + 1) r' s') = Normal"
      using "1.IH"[OF True it[symmetric] refl refl] nt "1.prems" by simp
    then show ?thesis using True it nt by (auto simp: whileLoop_unfold)
  qed
qed

lemma Failed_not_in_try: "Console Failed \<notin> set (fst (tryBlock url dev fp dly chrome qual p))"
  using tryBlock_events[of url dev fp dly chrome qual p] by (auto simp: in_try_def)

lemma Backoff_not_in_try: "Backoff n \<notin> set (fst (tryBlock url dev fp dly chrome qual p))"
  using tryBlock_events[of url dev fp dly chrome qual p] by (auto simp: in_try_def)

lemma iteration_Failed:
  "Console Failed \<in> set (fst (iteration url dev fp dly chrome qual p r))
     \<longleftrightarrow> newPage_ok p \<and> snd (tryBlock url dev fp dly chrome qual p) = Throw \<and> \<not> r + 1 \<le> maxRetries"
  using Failed_not_in_try[of url dev fp dly chrome qual p]
  by (cases rule: iteration_cases[of p url dev fp dly chrome qual r]) auto

lemma iteration_Backoff:
  "Backoff n \<in> set (fst (iteration url dev fp dly chrome qual p r))
     \<longleftrightarrow> n = 1000 \<and> newPage_ok p \<and> snd (tryBlock url dev fp dly chrome qual p) = Throw
          \<and> r + 1 \<le> maxRetries"
  using Backoff_not_in_try[of n url dev fp dly chrome qual p]
  by (cases rule: iteration_cases[of p url dev fp dly chrome qual r]) auto

lemma whileLoop_Failed:
  "Console Failed \<in> set (fst (whileLoop url dev fp dly chrome qual ps k r s))
     \<Longrightarrow> attempts (fst (whileLoop url dev fp dly chrome qual ps k r s)) = maxRetries + 1 - r"
proof (induction url dev fp dly chrome qual ps k r s rule: whileLoop.induct)
  case (1 url dev fp dly chrome qual ps k r s)
  show ?case
  proof (cases "r \<le> maxRetries \<and> \<not> s")
    case False
    then show ?thesis using "1.prems" by (simp add: whileLoop_exit)
  next
    case True
    obtain es r' s' threw where it: "iteration url dev fp dly chrome qual (ps k) r = (es, r', s', threw)"
      by (cases "iteration url dev fp dly chrome qual (ps k) r") auto
    have a1: "attempts es = 1"
      using attempts_iteration[of url dev fp dly chrome qual "ps k" r] it by simp
    have fi: "Console Failed \<in> set es \<longleftrightarrow> newPage_ok (ps k)
        \<and> snd (tryBlock url dev fp dly chrome qual (ps k)) = Throw \<and> \<not> r + 1 \<le> maxRetries"
      using iteration_Failed[of url dev fp dly chrome qual "ps k" r] it by simp
    show ?thesis
    proof (cases "Console Failed \<in> set es")
      case inhere: True
      then have rr: "r = maxRetries" using fi True by auto
      have "r' = r + 1 \<or> threw"
        using it fi inhere
        by (cases rule: iteration_cases[of "ps k" url dev fp dly chrome qual r]) auto
      then show ?thesis using True it a1 rr
        by (auto simp: whileLoop_unfold whileLoop_exit attempts_append attempts_def)
    next
      case nothere: False
      then have nthrew: "\<not> threw" and inrest: "Console Failed \<in> set (fst (whileLoop url dev fp dly chrome qual ps (k + 1) r' s'))"
        using "1.prems" True it by (auto simp: whileLoop_unfold split: if_splits)
      have ih: "attempts (fst (whileLoop url dev fp dly chrome qual ps (k + 1) r' s')) = maxRetries + 1 - r'"
        using "1.IH"[OF True it[symmetric] refl refl] nthrew inrest by simp
      have live: "r' \<le> maxRetries \<and> \<not> s'"
      proof (rule ccontr)
        assume n: "\<not> (r' \<le> maxRetries \<and> \<not> s')"
        have "fst (whileLoop url dev fp dly chrome qual ps (k + 1) r' s') = []"
          using whileLoop_exit[OF n] by simp
        with inrest show False by simp
      qed
      then have "r' \<le> maxRetries" and "\<not> s'" by simp_all
      then have "r' = r + 1" using iteration_progress[OF it] nthrew by auto
      then show ?thesis using True it a1 ih nthrew \<open>r' \<le> maxRetries\<close>
        by (auto simp: whileLoop_unfold attempts_append)
    qed
  qed
qed

lemma whileLoop_all_throw:
  assumes H: "\<forall>k. newPage_ok (ps k) \<and> close_ok (ps k)
                \<and> snd (tryBlock url dev fp dly chrome qual (ps k)) = Throw"
  shows "maxRetries - r = d \<Longrightarrow> r \<le> maxRetries \<Longrightarrow>
     attempts (fst (whileLoop url dev fp dly chrome qual ps k r False)) = maxRetries + 1 - r
     \<and> snd (whileLoop url dev fp dly chrome qual ps k r False) = Normal
     \<and> (\<exists>pre. fst (whileLoop url dev fp dly chrome qual ps k r False) = pre @ [Console Failed, ClosePage])"
proof (induction d arbitrary: r k)
  case 0
  then have rr: "r = maxRetries" by simp
  obtain es where t: "tryBlock url dev fp dly chrome qual (ps k) = (es, Throw)"
    using H by (cases "tryBlock url dev fp dly chrome qual (ps k)") (metis snd_conv)
  have it: "iteration url dev fp dly chrome qual (ps k) r
      = (NewPage # es @ [Console Failed, ClosePage], r + 1, False, False)"
    using H t rr by (simp add: iteration_def)
  have a: "attempts es = 0" using attempts_tryBlock[of url dev fp dly chrome qual "ps k"] t by simp
  have ex: "whileLoop url dev fp dly chrome qual ps (k + 1) (r + 1) False = ([], Normal)"
    using rr by (intro whileLoop_exit) simp
  have w: "whileLoop url dev fp dly chrome qual ps k r False
      = ((NewPage # es) @ [Console Failed, ClosePage], Normal)"
    using whileLoop_unfold[where ps=ps and k=k, OF "0.prems"(2) it] ex by simp
  have "attempts (fst (whileLoop url dev fp dly chrome qual ps k r False)) = maxRetries + 1 - r"
    using w a rr by (simp add: attempts_def)
  then show ?case using w by (metis fst_conv snd_conv)
next
  case (Suc d)
  then have rr: "r + 1 \<le> maxRetries" and d: "maxRetries - (r + 1) = d" by auto
  obtain es where t: "tryBlock url dev fp dly chrome qual (ps k) = (es, Throw)"
    using H by (cases "tryBlock url dev fp dly chrome qual (ps k)") (metis snd_conv)
  have it: "iteration url dev fp dly chrome qual (ps k) r
      = (NewPage # es @ [Console (AttemptFailed (r + 1)), Backoff 1000, ClosePage], r + 1, False, False)"
    using H t rr by (simp add: iteration_def)
  have a: "attempts es = 0" using attempts_tryBlock[of url dev fp dly chrome qual "ps k"] t by simp
  from Suc.IH[OF d rr, of "k + 1"] obtain pre where
    ih1: "attempts (fst (whileLoop url dev fp dly chrome qual ps (k + 1) (r + 1) False)) = maxRetries + 1 - (r + 1)"
    and ih2: "snd (whileLoop url dev fp dly chrome qual ps (k + 1) (r + 1) False) = Normal"
    and ih3: "fst (whileLoop url dev fp dly chrome qual ps (k + 1) (r + 1) False) = pre @ [Console Failed, ClosePage]"
    by blast
  have w: "whileLoop url dev fp dly chrome qual ps k r False
     = ((NewPage # es @ [Console (AttemptFailed (r + 1)), Backoff 1000, ClosePage]) @ pre @ [Console Failed, ClosePage], Normal)"
    using whileLoop_unfold[where ps=ps and k=k, OF Suc.prems(2) it] ih2 ih3 by simp
  have at: "attempts (fst (whileLoop url dev fp dly chrome qual ps k r False)) = maxRetries + 1 - r"
    using whileLoop_unfold[where ps=ps and k=k, OF Suc.prems(2) it] ih1 a rr by (simp add: attempts_append attempts_def)
  have "fst (whileLoop url dev fp dly chrome qual ps k r False)
      = ((NewPage # es @ [Console (AttemptFailed (r + 1)), Backoff 1000, ClosePage]) @ pre) @ [Console Failed, ClosePage]"
    using w by simp
  then show ?case using w at by (metis snd_conv)
qed

lemma tryBlock_captcha:
  "captcha_seen p \<Longrightarrow>
   tryBlock url dev fp dly False qual p
     = ([Goto url, RandomWait (randomWait p), WaitForLoadState, Evaluate, Console CaptchaDetected],
        Continue)"
  by (simp add: tryBlock_def captcha_seen_def andThen_def call_def)

lemma iteration_captcha:
  "captcha_seen p \<Longrightarrow>
   iteration url dev fp dly False qual p r
     = ([NewPage, Goto url, RandomWait (randomWait p), WaitForLoadState, Evaluate,
         Console CaptchaDetected, ClosePage], r + 1, False, \<not> close_ok p)"
  by (simp add: iteration_def tryBlock_captcha) (simp add: captcha_seen_def)

lemma whileLoop_starts:
  "r \<le> maxRetries \<Longrightarrow> \<exists>rest. fst (whileLoop url dev fp dly chrome qual ps k r False) = NewPage # rest"
proof -
  assume r: "r \<le> maxRetries"
  obtain es r' s' threw where it: "iteration url dev fp dly chrome qual (ps k) r = (es, r', s', threw)"
    by (cases "iteration url dev fp dly chrome qual (ps k) r") auto
  have "\<exists>t. es = NewPage # t"
    using it by (cases rule: iteration_cases[of "ps k" url dev fp dly chrome qual r]) auto
  then show ?thesis using r it by (auto simp: whileLoop_unfold)
qed

lemma whileLoop_all_captcha:
  assumes H: "\<forall>k. captcha_seen (ps k) \<and> close_ok (ps k)"
  shows "maxRetries - r = d \<Longrightarrow> r \<le> maxRetries \<Longrightarrow>
     attempts (fst (whileLoop url dev fp dly False qual ps k r False)) = maxRetries + 1 - r
     \<and> snd (whileLoop url dev fp dly False qual ps k r False) = Normal
     \<and> (\<forall>e \<in> set (fst (whileLoop url dev fp dly False qual ps k r False)). captcha_event url e)"
proof (induction d arbitrary: r k)
  case 0
  then have rr: "r = maxRetries" by simp
  let ?es = "[NewPage, Goto url, RandomWait (randomWait (ps k)), WaitForLoadState, Evaluate,
         Console CaptchaDetected, ClosePage]"
  have it: "iteration url dev fp dly False qual (ps k) r = (?es, r + 1, False, False)"
    using H iteration_captcha[of "ps k" url dev fp dly qual r] by simp
  have ex: "whileLoop url dev fp dly False qual ps (k + 1) (r + 1) False = ([], Normal)"
    using rr by (intro whileLoop_exit) simp
  have w: "whileLoop url dev fp dly False qual ps k r False = (?es, Normal)"
    using whileLoop_unfold[where ps=ps and k=k, OF "0.prems"(2) it] ex by simp
  show ?case unfolding w using rr by (simp add: attempts_def captcha_event_def)
next
  case (Suc d)
  then have rr: "r + 1 \<le> maxRetries" and d: "maxRetries - (r + 1) = d" by auto
  let ?es = "[NewPage, Goto url, RandomWait (randomWait (ps k)), WaitForLoadState, Evaluate,
         Console CaptchaDetected, ClosePage]"
  have it: "iteration url dev fp dly False qual (ps k) r = (?es, r + 1, False, False)"
    using H iteration_captcha[of "ps k" url dev fp dly qual r] by simp
  note ih = Suc.IH[OF d rr, of "k + 1"]
  have w: "whileLoop url dev fp dly False qual ps k r False
     = (?es @ fst (whileLoop url dev fp dly False qual ps (k + 1) (r + 1) False), Normal)"
    using whileLoop_unfold[where ps=ps and k=k, OF Suc.prems(2) it] ih by simp
  have a: "attempts ?es = 1" by (simp add: attempts_def)
  have c: "\<forall>e \<in> set ?es. captcha_event url e" by (simp add: captcha_event_def)
  show ?case unfolding w using ih c rr by (auto simp: attempts_def)
qed

section \<open>Facts about batches and runs\<close>

lemma processQuery_no_escape:
  "\<forall>k. newPage_ok (ps k) \<and> close_ok (ps k)
     \<Longrightarrow> snd (processQuery q i eng dev ps out dly chrome qual) = Normal"
  by (simp add: processQuery_def whileLoop_no_escape)

lemma given_enumerate:
  "map (\<lambda>(bi, q). (q, i + bi)) (enumerate n batch) = zip batch [i + n ..< i + n + length batch]"
proof (induction batch arbitrary: n)
  case Nil then show ?case by simp
next
  case (Cons q batch)
  have "[i + n ..< i + n + length (q # batch)] = (i + n) # [i + Suc n ..< i + Suc n + length batch]"
    by (simp add: upt_rec)
  then show ?case using Cons.IH[of "Suc n"] by simp
qed

lemma given_batchTasks:
  "map given (batchTasks eng dev pgs out dly chrome qual i batch) = zip batch [i ..< i + length batch]"
proof -
  have "map given (batchTasks eng dev pgs out dly chrome qual i batch)
      = map (\<lambda>(bi, q). (q, i + bi)) (enumerate 0 batch)"
    by (simp add: batchTasks_def given_def split_def)
  then show ?thesis using given_enumerate[of i 0 batch] by simp
qed

lemma length_batchTasks: "length (batchTasks eng dev pgs out dly chrome qual i batch) = length batch"
  by (simp add: batchTasks_def)

lemma batchTasks_end:
  "t \<in> set (batchTasks eng dev pgs out dly chrome qual i batch)
     \<Longrightarrow> \<exists>q j. t_end t = snd (processQuery q j eng dev (pgs j) out dly chrome qual)"
proof -
  assume "t \<in> set (batchTasks eng dev pgs out dly chrome qual i batch)"
  then obtain bi q where
    "t = (case processQuery q (i + bi) eng dev (pgs (i + bi)) out dly chrome qual of
            (es, c) \<Rightarrow> Task q (i + bi) es c)"
    by (auto simp: batchTasks_def)
  then have "t_end t = snd (processQuery q (i + bi) eng dev (pgs (i + bi)) out dly chrome qual)"
    by (simp add: split_def)
  then show ?thesis by blast
qed

lemma promiseAll_no_escape:
  "\<forall>i k. newPage_ok (pgs i k) \<and> close_ok (pgs i k)
     \<Longrightarrow> promiseAll (batchTasks eng dev pgs out dly chrome qual i batch) = Normal"
proof -
  assume H: "\<forall>i k. newPage_ok (pgs i k) \<and> close_ok (pgs i k)"
  have "t_end t = Normal" if "t \<in> set (batchTasks eng dev pgs out dly chrome qual i batch)" for t
  proof -
    from batchTasks_end[OF that] obtain q j where
      "t_end t = snd (processQuery q j eng dev (pgs j) out dly chrome qual)" by blast
    then show ?thesis using processQuery_no_escape[of "pgs j"] H by simp
  qed
  then show ?thesis by (simp add: promiseAll_def)
qed

lemma batchLoop_unfold:
  "i < length qs \<Longrightarrow>
   batchLoop eng dev pgs out dly chrome qual qs i
     = andThen ([Batch (batchTasks eng dev pgs out dly chrome qual i (take (batchSize chrome) (drop i qs)))],
                promiseAll (batchTasks eng dev pgs out dly chrome qual i (take (batchSize chrome) (drop i qs))))
         (batchLoop eng dev pgs out dly chrome qual qs (i + batchSize chrome))"
  by (subst batchLoop.simps) (simp add: Let_def)

lemma batchLoop_exit:
  "\<not> i < length qs \<Longrightarrow> batchLoop eng dev pgs out dly chrome qual qs i = ([], Normal)"
  by (subst batchLoop.simps) simp

lemma zip_chunk:
  "zip (take b xs) [i ..< i + length (take b xs)] @ zip (drop b xs) [i + b ..< i + length xs]
     = zip xs [i ..< i + length xs]"
proof (cases "b \<le> length xs")
  case True
  have "i + length xs = (i + b) + (length xs - b)" using True by simp
  then have "[i ..< i + length xs] = [i ..< i + b] @ [i + b ..< i + length xs]"
    using upt_add_eq_append[of i "i + b" "length xs - b"] by simp
  moreover have "length (take b xs) = b" using True by simp
  ultimately have "zip (take b xs @ drop b xs) [i ..< i + length xs]
      = zip (take b xs) [i ..< i + b] @ zip (drop b xs) [i + b ..< i + length xs]"
    by (simp add: zip_append del: append_take_drop_id)
  then show ?thesis using True by simp
next
  case False
  then show ?thesis by simp
qed

lemma batchLoop_all:
  "\<forall>i k. newPage_ok (pgs i k) \<and> close_ok (pgs i k) \<Longrightarrow>
   snd (batchLoop eng dev pgs out dly chrome qual qs i) = Normal
     \<and> map given (tasks_of (fst (batchLoop eng dev pgs out dly chrome qual qs i)))
         = zip (drop i qs) [i ..< length qs]"
proof (induction eng dev pgs out dly chrome qual qs i rule: batchLoop.induct)
  case (1 eng dev pgs out dly chrome qual qs i)
  show ?case
  proof (cases "i < length qs")
    case False
    then show ?thesis by (simp add: batchLoop_exit tasks_of_def)
  next
    case True
    let ?b = "batchSize chrome"
    let ?ts = "batchTasks eng dev pgs out dly chrome qual i (take ?b (drop i qs))"
    have ih: "snd (batchLoop eng dev pgs out dly chrome qual qs (i + ?b)) = Normal
        \<and> map given (tasks_of (fst (batchLoop eng dev pgs out dly chrome qual qs (i + ?b))))
            = zip (drop (i + ?b) qs) [i + ?b ..< length qs]"
      using "1.IH"[OF True refl refl] "1.prems" by simp
    have pa: "promiseAll ?ts = Normal" using "1.prems" by (rule promiseAll_no_escape)
    have u: "batchLoop eng dev pgs out dly chrome qual qs i
        = (Batch ?ts # fst (batchLoop eng dev pgs out dly chrome qual qs (i + ?b)),
           snd (batchLoop eng dev pgs out dly chrome qual qs (i + ?b)))"
      using batchLoop_unfold[OF True, of eng dev pgs out dly chrome qual] pa
      by (simp add: andThen_def)
    have g: "map given ?ts = zip (take ?b (drop i qs)) [i ..< i + length (take ?b (drop i qs))]"
      by (rule given_batchTasks)
    have "zip (take ?b (drop i qs)) [i ..< i + length (take ?b (drop i qs))]
          @ zip (drop ?b (drop i qs)) [i + ?b ..< i + length (drop i qs)]
        = zip (drop i qs) [i ..< i + length (drop i qs)]"
      by (rule zip_chunk)
    moreover have "i + length (drop i qs) = length qs" using True by simp
    moreover have "drop ?b (drop i qs) = drop (i + ?b) qs" by (simp add: add.commute)
    ultimately have z: "zip (take ?b (drop i qs)) [i ..< i + length (take ?b (drop i qs))]
          @ zip (drop (i + ?b) qs) [i + ?b ..< length qs] = zip (drop i qs) [i ..< length qs]"
      by simp
    show ?thesis using u ih g z by (simp add: tasks_of_def)
  qed
qed

lemma batchLoop_batches: "\<exists>bs. fst (batchLoop eng dev pgs out dly chrome qual qs i) = map Batch bs"
proof (induction eng dev pgs out dly chrome qual qs i rule: batchLoop.induct)
  case (1 eng dev pgs out dly chrome qual qs i)
  show ?case
  proof (cases "i < length qs")
    case False
    then show ?thesis by (simp add: batchLoop_exit)
  next
    case True
    let ?ts = "batchTasks eng dev pgs out dly chrome qual i (take (batchSize chrome) (drop i qs))"
    from "1.IH"[OF True refl refl] obtain bs where
      ih: "fst (batchLoop eng dev pgs out dly chrome qual qs (i + batchSize chrome)) = map Batch bs"
      by blast
    show ?thesis
    proof (cases "promiseAll ?ts = Normal")
      case True
      have "fst (batchLoop eng dev pgs out dly chrome qual qs i) = map Batch (?ts # bs)"
        using batchLoop_unfold[OF \<open>i < length qs\<close>, of eng dev pgs out dly chrome qual] True ih
        by (simp add: andThen_def)
      then show ?thesis by blast
    next
      case False
      have "fst (batchLoop eng dev pgs out dly chrome qual qs i) = map Batch [?ts]"
        using batchLoop_unfold[OF \<open>i < length qs\<close>, of eng dev pgs out dly chrome qual] False
        by (simp add: andThen_def)
      then show ?thesis by blast
    qed
  qed
qed

lemma lifecycle_batches: "lifecycle Live (map Batch bs @ es) = lifecycle Live es"
  by (induction bs) simp_all

lemma lifecycle_teardown:
  "lifecycle Live (fst (andThen (call ContextClose c) (if u then call BrowserClose b else ([], Normal))))"
  by (simp add: andThen_def call_def)

lemma lifecycle_work:
  "lifecycle Live (fst (andThen (batchLoop eng dev pgs out dly chrome qual qs i)
      (andThen (call ContextClose c) (if u then call BrowserClose b else ([], Normal)))))"
proof -
  obtain bs where b: "fst (batchLoop eng dev pgs out dly chrome qual qs i) = map Batch bs"
    using batchLoop_batches by blast
  show ?thesis
  proof (cases "snd (batchLoop eng dev pgs out dly chrome qual qs i) = Normal")
    case True
    then show ?thesis using b lifecycle_teardown[of c u b] lifecycle_batches[of bs]
      by (simp add: fst_andThen)
  next
    case False
    then show ?thesis using b lifecycle_batches[of bs "[]"] by (simp add: fst_andThen)
  qed
qed

lemma lifecycle_acquire:
  assumes "lifecycle Live (fst r)"
  shows "lifecycle NoSession (fst (andThen (acquire sh s) r))"
  using assms by (simp add: acquire_def andThen_def call_def)

lemma lifecycle_generate: "lifecycle NoSession (fst (generateSearchScreenshots a s))"
proof -
  let ?work = "\<lambda>hdrs rws.
     andThen (acquire (useChrome a \<and> engine a = ''google'') s)
       (andThen (batchLoop (engine a) (if mode a = ''mobile'' then ''mobile'' else ''desktop'')
                   (pages s) [output_arg a, runDir (now s) (engine a)] (delay a) (useChrome a)
                   (quality a) (queries (queryColIndex (column a) hdrs) rws) 0)
       (andThen (call ContextClose (contextClose_ok s))
          (if \<not> useChrome a then call BrowserClose (browserClose_ok s) else ([], Normal))))"
  have w: "lifecycle NoSession (fst (?work hdrs rws))" for hdrs rws
    by (rule lifecycle_acquire) (rule lifecycle_work)
  show ?thesis
  proof (cases "headers s")
    case None
    then show ?thesis by (simp add: generateSearchScreenshots_def andThen_def call_def)
  next
    case (Some hdrs)
    show ?thesis
    proof (cases "rows s")
      case None
      then show ?thesis using Some by (simp add: generateSearchScreenshots_def andThen_def call_def)
    next
      case (Some rws)
      have "fst (generateSearchScreenshots a s)
          = (if mkdir_ok s
             then [Mkdir [output_arg a, runDir (now s) (engine a)], ReadHeaders, ReadRows]
                    @ fst (?work hdrs rws)
             else [Mkdir [output_arg a, runDir (now s) (engine a)]])"
        using \<open>headers s = Some hdrs\<close> Some
        by (simp add: generateSearchScreenshots_def andThen_def call_def Let_def)
      then show ?thesis using w[of hdrs rws] by simp
    qed
  qed
qed

lemma generate_teardown:
  assumes "mkdir_ok s" "headers s = Some hdrs" "rows s = Some rws"
    and "snd (acquire (useChrome a \<and> engine a = ''google'') s) = Normal"
    and "\<forall>i k. newPage_ok (pages s i k) \<and> close_ok (pages s i k)"
    and "contextClose_ok s"
  shows "\<exists>pre. fst (generateSearchScreenshots a s)
           = pre @ ContextClose # (if useChrome a then [] else [BrowserClose])"
    and "browserClose_ok s \<Longrightarrow> snd (generateSearchScreenshots a s) = Normal"
proof -
  let ?bl = "batchLoop (engine a) (if mode a = ''mobile'' then ''mobile'' else ''desktop'')
                   (pages s) [output_arg a, runDir (now s) (engine a)] (delay a) (useChrome a)
                   (quality a) (queries (queryColIndex (column a) hdrs) rws) 0"
  have b: "snd ?bl = Normal" using batchLoop_all[OF assms(5)] by blast
  have g: "generateSearchScreenshots a s
      = (([Mkdir [output_arg a, runDir (now s) (engine a)], ReadHeaders, ReadRows]
           @ fst (acquire (useChrome a \<and> engine a = ''google'') s) @ fst ?bl)
           @ ContextClose # (if useChrome a then [] else [BrowserClose]),
         if useChrome a \<or> browserClose_ok s then Normal else Throw)"
    using assms(1,2,3,4,6) b
    by (simp add: generateSearchScreenshots_def andThen_def call_def Let_def)
  show "\<exists>pre. fst (generateSearchScreenshots a s)
           = pre @ ContextClose # (if useChrome a then [] else [BrowserClose])"
    using g by (metis fst_conv)
  show "browserClose_ok s \<Longrightarrow> snd (generateSearchScreenshots a s) = Normal"
    using g by simp
qed

lemma generate_first_event:
  "\<exists>es. fst (generateSearchScreenshots a s) = Mkdir [output_arg a, runDir (now s) (engine a)] # es"
  by (simp add: generateSearchScreenshots_def andThen_def call_def Let_def)

lemma batchLoop_no_persistent:
  "LaunchPersistentContext d \<notin> set (fst (batchLoop eng dev pgs out dly chrome qual qs i))"
  using batchLoop_batches[of eng dev pgs out dly chrome qual qs i] by auto

lemma generate_persistent:
  "LaunchPersistentContext d \<in> set (fst (generateSearchScreenshots a s))
     \<Longrightarrow> useChrome a \<and> engine a = ''google''"
proof (rule ccontr)
  assume m: "LaunchPersistentContext d \<in> set (fst (generateSearchScreenshots a s))"
  assume n: "\<not> (useChrome a \<and> engine a = ''google'')"
  have "set (fst (generateSearchScreenshots a s))
      \<subseteq> {Mkdir [output_arg a, runDir (now s) (engine a)], ReadHeaders, ReadRows, Launch,
          NewContext, ContextClose, BrowserClose}
        \<union> (\<Union>hdrs rws. set (fst (batchLoop (engine a) (if mode a = ''mobile'' then ''mobile'' else ''desktop'')
                   (pages s) [output_arg a, runDir (now s) (engine a)] (delay a) (useChrome a)
                   (quality a) (queries (queryColIndex (column a) hdrs) rws) 0)))"
    using n
    by (auto simp: generateSearchScreenshots_def andThen_def call_def acquire_def Let_def
             split: option.splits if_splits)
  with m show False using batchLoop_no_persistent by fastforce
qed

lemma runDir_distinct:
  "e \<in> {''google'', ''bing'', ''duckduckgo''} \<Longrightarrow> runDir t1 ''yahoo'' \<noteq> runDir t2 e"
proof
  assume e: "e \<in> {''google'', ''bing'', ''duckduckgo''}"
  assume "runDir t1 ''yahoo'' = runDir t2 e"
  then have "rev (runDir t1 ''yahoo'') = rev (runDir t2 e)" by simp
  then show False using e by (auto simp: runDir_def)
qed

lemma processQuery_not_opened:
  "\<not> newPage_ok (ps 0) \<Longrightarrow> processQuery q i eng dev ps out dly chrome qual = ([NewPage], Throw)"
proof -
  let ?url = "searchUrl eng q" and ?fp = "out @ [filename i eng dev q]"
  assume n: "\<not> newPage_ok (ps 0)"
  have it: "iteration ?url dev ?fp dly chrome qual (ps 0) 0 = ([NewPage], 0, False, True)"
    using n by (simp add: iteration_def)
  have "0 \<le> maxRetries" by simp
  from whileLoop_unfold[where ps=ps and k=0, OF this it]
  show ?thesis by (simp add: processQuery_def)
qed

lemma processQuery_escape:
  "\<not> newPage_ok (ps 0) \<or> \<not> close_ok (ps 0)
     \<Longrightarrow> snd (processQuery q i eng dev ps out dly chrome qual) = Throw"
proof -
  let ?url = "searchUrl eng q" and ?fp = "out @ [filename i eng dev q]"
  assume n: "\<not> newPage_ok (ps 0) \<or> \<not> close_ok (ps 0)"
  obtain es r' s' threw where
    it: "iteration ?url dev ?fp dly chrome qual (ps 0) 0 = (es, r', s', threw)"
    by (cases "iteration ?url dev ?fp dly chrome qual (ps 0) 0") auto
  have t: "threw"
    using it n by (cases rule: iteration_cases[of "ps 0" ?url dev ?fp dly chrome qual 0]) auto
  have "0 \<le> maxRetries" by simp
  from whileLoop_unfold[where ps=ps and k=0, OF this it] t
  show ?thesis by (simp add: processQuery_def)
qed

lemma batchTasks_nth:
  "m < length batch \<Longrightarrow>
   t_end (batchTasks eng dev pgs out dly chrome qual i batch ! m)
     = snd (processQuery (batch ! m) (i + m) eng dev (pgs (i + m)) out dly chrome qual)"
  by (simp add: batchTasks_def nth_enumerate_eq split_def)

lemma promiseAll_cases: "promiseAll ts = Normal \<or> promiseAll ts = Throw"
  by (simp add: promiseAll_def)

lemma promiseAll_reject: "t \<in> set ts \<Longrightarrow> t_end t \<noteq> Normal \<Longrightarrow> promiseAll ts = Throw"
  by (auto simp: promiseAll_def)

lemma batchLoop_reject:
  "i0 \<le> i \<Longrightarrow> i < length qs \<Longrightarrow>
   snd (processQuery (qs ! i) i eng dev (pgs i) out dly chrome qual) = Throw \<Longrightarrow>
   snd (batchLoop eng dev pgs out dly chrome qual qs i0) = Throw"
proof (induction eng dev pgs out dly chrome qual qs i0 rule: batchLoop.induct)
  case (1 eng dev pgs out dly chrome qual qs i0)
  have lt: "i0 < length qs" using "1.prems" by simp
  let ?b = "batchSize chrome"
  let ?batch = "take ?b (drop i0 qs)"
  let ?ts = "batchTasks eng dev pgs out dly chrome qual i0 ?batch"
  note u = batchLoop_unfold[OF lt, of eng dev pgs out dly chrome qual]
  show ?case
  proof (cases "promiseAll ?ts = Normal")
    case False
    then have "promiseAll ?ts = Throw" using promiseAll_cases by blast
    then show ?thesis using u by (simp add: andThen_def)
  next
    case True
    have ge: "i0 + ?b \<le> i"
    proof (rule ccontr)
      assume "\<not> i0 + ?b \<le> i"
      then have "i - i0 < ?b" using "1.prems"(1) by arith
      moreover have "i - i0 < length qs - i0" using "1.prems" by arith
      ultimately have m: "i - i0 < length ?batch" by simp
      have "?batch ! (i - i0) = qs ! i" using m "1.prems" by simp
      then have "t_end (?ts ! (i - i0)) = Throw"
        using batchTasks_nth[OF m, of eng dev pgs out dly chrome qual i0] "1.prems" by simp
      moreover have "?ts ! (i - i0) \<in> set ?ts" using m by (simp add: length_batchTasks)
      ultimately have "promiseAll ?ts = Throw" using promiseAll_reject by fastforce
      with True show False by simp
    qed
    have "snd (batchLoop eng dev pgs out dly chrome qual qs (i0 + ?b)) = Throw"
      using "1.IH"[OF lt refl refl ge "1.prems"(2,3)] .
    then show ?thesis using u True by (simp add: andThen_def)
  qed
qed

lemma acquire_events:
  "ContextClose \<notin> set (fst (acquire sh s)) \<and> BrowserClose \<notin> set (fst (acquire sh s))
   \<and> (snd (acquire sh s) = Normal \<or> snd (acquire sh s) = Throw)"
  by (simp add: acquire_def andThen_def call_def)

lemma batchLoop_no_close:
  "ContextClose \<notin> set (fst (batchLoop eng dev pgs out dly chrome qual qs i))
   \<and> BrowserClose \<notin> set (fst (batchLoop eng dev pgs out dly chrome qual qs i))"
  using batchLoop_batches[of eng dev pgs out dly chrome qual qs i] by auto

lemma generate_reject:
  assumes "headers s = Some hdrs" "rows s = Some rws"
    and "i < length (queries (queryColIndex (column a) hdrs) rws)"
    and "snd (processQuery (queries (queryColIndex (column a) hdrs) rws ! i) i (engine a)
                (if mode a = ''mobile'' then ''mobile'' else ''desktop'') (pages s i)
                [output_arg a, runDir (now s) (engine a)] (delay a) (useChrome a) (quality a))
           = Throw"
  shows "snd (generateSearchScreenshots a s) = Throw
     \<and> ContextClose \<notin> set (fst (generateSearchScreenshots a s))
     \<and> BrowserClose \<notin> set (fst (generateSearchScreenshots a s))"
proof -
  let ?qs = "queries (queryColIndex (column a) hdrs) rws"
  let ?dev = "if mode a = ''mobile'' then ''mobile'' else ''desktop''"
  let ?out = "[output_arg a, runDir (now s) (engine a)]"
  let ?bl = "batchLoop (engine a) ?dev (pages s) ?out (delay a) (useChrome a) (quality a) ?qs 0"
  let ?aq = "acquire (useChrome a \<and> engine a = ''google'') s"
  have b: "snd ?bl = Throw" using batchLoop_reject[of 0 i ?qs] assms(3,4) by simp
  note nb = batchLoop_no_close[of "engine a" ?dev "pages s" ?out "delay a" "useChrome a" "quality a" ?qs 0]
  note na = acquire_events[of "useChrome a \<and> engine a = ''google''" s]
  have g: "generateSearchScreenshots a s
      = (if \<not> mkdir_ok s then ([Mkdir ?out], Throw)
         else if snd ?aq \<noteq> Normal then ([Mkdir ?out, ReadHeaders, ReadRows] @ fst ?aq, snd ?aq)
         else ([Mkdir ?out, ReadHeaders, ReadRows] @ fst ?aq @ fst ?bl, Throw))"
    using assms(1,2) b
    by (simp add: generateSearchScreenshots_def andThen_def call_def Let_def)
  show ?thesis unfolding g using na nb by auto
qed

section \<open>The retry budget of a query\<close>

text \<open>
  C1, as the code has it.  \<open>processQuery\<close> is a total function: its loop ends for every
  behaviour of the browser.  A task makes at least one and at most \<open>maxRetries + 1 = 3\<close>
  attempts (it opens at least one and at most three pages), and the failure of the query is
  reported only when exactly three attempts have been made.  When every attempt throws in its
  \<^verbatim>\<open>try\<close> block (each page opens and closes), the query is attempted exactly three times,
  that is, retried exactly \<open>maxRetries = 2\<close> more times, the last attempt ends with the
  failure report, and the task resolves.  When the first page cannot be opened, the task
  consists of that one call: it is not retried, reports no failure and rejects.
\<close>

theorem retry_budget:
  "1 \<le> attempts (fst (processQuery q i eng dev ps out dly chrome qual))
   \<and> attempts (fst (processQuery q i eng dev ps out dly chrome qual)) \<le> maxRetries + 1
   \<and> maxRetries + 1 = 3
   \<and> (Console Failed \<in> set (fst (processQuery q i eng dev ps out dly chrome qual))
        \<longrightarrow> attempts (fst (processQuery q i eng dev ps out dly chrome qual)) = maxRetries + 1)
   \<and> ((\<forall>k. newPage_ok (ps k) \<and> close_ok (ps k)
            \<and> snd (tryBlock (searchUrl eng q) dev (out @ [filename i eng dev q]) dly chrome qual
                      (ps k)) = Throw)
        \<longrightarrow> attempts (fst (processQuery q i eng dev ps out dly chrome qual)) = maxRetries + 1
            \<and> snd (processQuery q i eng dev ps out dly chrome qual) = Normal
            \<and> (\<exists>pre. fst (processQuery q i eng dev ps out dly chrome qual)
                        = pre @ [Console Failed, ClosePage]))
   \<and> (\<not> newPage_ok (ps 0)
        \<longrightarrow> processQuery q i eng dev ps out dly chrome qual = ([NewPage], Throw))"
proof -
  let ?url = "searchUrl eng q" and ?fp = "out @ [filename i eng dev q]"
  have p: "processQuery q i eng dev ps out dly chrome qual
      = whileLoop ?url dev ?fp dly chrome qual ps 0 0 False"
    by (simp add: processQuery_def)
  have 1: "1 \<le> attempts (fst (whileLoop ?url dev ?fp dly chrome qual ps 0 0 False))"
    by (rule attempts_whileLoop_ge) simp
  have 2: "attempts (fst (whileLoop ?url dev ?fp dly chrome qual ps 0 0 False)) \<le> maxRetries + 1"
    using attempts_whileLoop_le[of ?url dev ?fp dly chrome qual ps 0 0 False] by simp
  have 3: "maxRetries + 1 = 3" by (simp add: maxRetries_def)
  have 4: "Console Failed \<in> set (fst (whileLoop ?url dev ?fp dly chrome qual ps 0 0 False))
        \<longrightarrow> attempts (fst (whileLoop ?url dev ?fp dly chrome qual ps 0 0 False)) = maxRetries + 1"
    using whileLoop_Failed[of ?url dev ?fp dly chrome qual ps 0 0 False] by simp
  have 5: "(\<forall>k. newPage_ok (ps k) \<and> close_ok (ps k)
            \<and> snd (tryBlock ?url dev ?fp dly chrome qual (ps k)) = Throw)
        \<longrightarrow> attempts (fst (whileLoop ?url dev ?fp dly chrome qual ps 0 0 False)) = maxRetries + 1
            \<and> snd (whileLoop ?url dev ?fp dly chrome qual ps 0 0 False) = Normal
            \<and> (\<exists>pre. fst (whileLoop ?url dev ?fp dly chrome qual ps 0 0 False)
                        = pre @ [Console Failed, ClosePage])"
  proof
    assume H: "\<forall>k. newPage_ok (ps k) \<and> close_ok (ps k)
            \<and> snd (tryBlock ?url dev ?fp dly chrome qual (ps k)) = Throw"
    show "attempts (fst (whileLoop ?url dev ?fp dly chrome qual ps 0 0 False)) = maxRetries + 1
            \<and> snd (whileLoop ?url dev ?fp dly chrome qual ps 0 0 False) = Normal
            \<and> (\<exists>pre. fst (whileLoop ?url dev ?fp dly chrome qual ps 0 0 False)
                        = pre @ [Console Failed, ClosePage])"
      using whileLoop_all_throw[OF H, of 0 maxRetries 0] by simp
  qed
  have 6: "\<not> newPage_ok (ps 0)
        \<longrightarrow> whileLoop ?url dev ?fp dly chrome qual ps 0 0 False = ([NewPage], Throw)"
    using processQuery_not_opened[of ps q i eng dev out dly chrome qual] unfolding p by blast
  from 1 2 3 4 5 6 show ?thesis unfolding p by blast
qed

text \<open>A query whose navigation fails on every page: three attempts, then the failure report.\<close>

theorem retry_budget_witness:
  "attempts (fst (processQuery ''foo'' 0 ''yahoo'' ''mobile'' pages_never_load [''shots'', ''run'']
                    1 False 80)) = 3
   \<and> snd (processQuery ''foo'' 0 ''yahoo'' ''mobile'' pages_never_load [''shots'', ''run'']
             1 False 80) = Normal
   \<and> Console Failed \<in> set (fst (processQuery ''foo'' 0 ''yahoo'' ''mobile'' pages_never_load
                                   [''shots'', ''run''] 1 False 80))"
proof -
  let ?P = "processQuery ''foo'' 0 ''yahoo'' ''mobile'' pages_never_load [''shots'', ''run''] 1 False 80"
  have H: "\<forall>k. newPage_ok (pages_never_load k) \<and> close_ok (pages_never_load k)
      \<and> snd (tryBlock (searchUrl ''yahoo'' ''foo'') ''mobile''
                ([''shots'', ''run''] @ [filename 0 ''yahoo'' ''mobile'' ''foo'']) 1 False 80
                (pages_never_load k)) = Throw"
    by (simp add: pages_never_load_def page_ok_def tryBlock_def andThen_def call_def)
  from retry_budget [of "''foo''" 0 "''yahoo''" "''mobile''" pages_never_load "[''shots'', ''run'']"
      1 False 80] H
  have a: "attempts (fst ?P) = maxRetries + 1" and n: "snd ?P = Normal"
    and e: "\<exists>pre. fst ?P = pre @ [Console Failed, ClosePage]"
    by blast+
  from e have "Console Failed \<in> set (fst ?P)" by auto
  with a n show ?thesis by (simp add: maxRetries_def)
qed

text \<open>
  The claim as stated fails when the pages cannot be opened.  Every attempt of this query
  would throw, yet there is one attempt only, no retry and no failure report: the exception
  leaves \<open>processQuery\<close>.
\<close>

theorem no_retry_counterexample:
  "processQuery ''foo'' 0 ''yahoo'' ''mobile'' pages_never_open [''shots'', ''run''] 1 False 80
     = ([NewPage], Throw)
   \<and> attempts (fst (processQuery ''foo'' 0 ''yahoo'' ''mobile'' pages_never_open
                      [''shots'', ''run''] 1 False 80)) = 1
   \<and> Console Failed \<notin> set (fst (processQuery ''foo'' 0 ''yahoo'' ''mobile'' pages_never_open
                                   [''shots'', ''run''] 1 False 80))"
  by code_simp

section \<open>Where the exceptions of a query are caught\<close>

text \<open>
  C2, as the code has it.  Every exception raised inside the \<^verbatim>\<open>try\<close> block of an attempt
  (navigation, the waits, the CAPTCHA check, the screenshot) is caught inside
  \<open>processQuery\<close>: when every page of a task opens and closes, the task resolves, whatever
  else fails.  When this holds for all tasks, the batch loop ends normally and has given
  every query, in order and under its own sequence index, to a task: the failure of one
  query does not stop the others.  A query whose every attempt throws in its \<^verbatim>\<open>try\<close> block
  is reported as failed and its task resolves.  A query whose every attempt meets a CAPTCHA,
  with the \<open>useChrome\<close> flag off, also ends after three attempts and its task resolves, but
  nothing reports it as failed.  The opening of the page lies outside the \<^verbatim>\<open>try\<close> block and
  the closing of the page in its \<^verbatim>\<open>finally\<close> block: an exception raised by either at the
  first page leaves \<open>processQuery\<close>.  A task that rejects makes the batch loop reject, and
  the run with it: the run ends there and the context is not closed.
\<close>

theorem failures_caught_in_try_block:
  "((\<forall>k. newPage_ok (ps k) \<and> close_ok (ps k))
       \<longrightarrow> snd (processQuery q i eng dev ps out dly chrome qual) = Normal)
   \<and> ((\<forall>j k. newPage_ok (pgs j k) \<and> close_ok (pgs j k))
       \<longrightarrow> snd (batchLoop eng dev pgs out dly chrome qual qs 0) = Normal
           \<and> map given (tasks_of (fst (batchLoop eng dev pgs out dly chrome qual qs 0)))
               = zip qs [0 ..< length qs])
   \<and> ((\<forall>k. newPage_ok (ps k) \<and> close_ok (ps k)
            \<and> snd (tryBlock (searchUrl eng q) dev (out @ [filename i eng dev q]) dly chrome qual
                      (ps k)) = Throw)
       \<longrightarrow> Console Failed \<in> set (fst (processQuery q i eng dev ps out dly chrome qual))
           \<and> snd (processQuery q i eng dev ps out dly chrome qual) = Normal)
   \<and> ((\<forall>k. captcha_seen (ps k) \<and> close_ok (ps k))
       \<longrightarrow> attempts (fst (processQuery q i eng dev ps out dly False qual)) = maxRetries + 1
           \<and> snd (processQuery q i eng dev ps out dly False qual) = Normal
           \<and> Console Failed \<notin> set (fst (processQuery q i eng dev ps out dly False qual)))
   \<and> (\<not> newPage_ok (ps 0)
       \<longrightarrow> processQuery q i eng dev ps out dly chrome qual = ([NewPage], Throw))
   \<and> (newPage_ok (ps 0) \<and> \<not> close_ok (ps 0)
       \<longrightarrow> snd (processQuery q i eng dev ps out dly chrome qual) = Throw)
   \<and> (n < length qs
        \<and> snd (processQuery (qs ! n) n eng dev (pgs n) out dly chrome qual) = Throw
       \<longrightarrow> snd (batchLoop eng dev pgs out dly chrome qual qs 0) = Throw)
   \<and> (headers s = Some hdrs \<and> rows s = Some rws
        \<and> m < length (queries (queryColIndex (column a) hdrs) rws)
        \<and> snd (processQuery (queries (queryColIndex (column a) hdrs) rws ! m) m (engine a)
                 (if mode a = ''mobile'' then ''mobile'' else ''desktop'') (pages s m)
                 [output_arg a, runDir (now s) (engine a)] (delay a) (useChrome a) (quality a))
            = Throw
       \<longrightarrow> snd (generateSearchScreenshots a s) = Throw
           \<and> ContextClose \<notin> set (fst (generateSearchScreenshots a s)))"
proof -
  let ?url = "searchUrl eng q" and ?fp = "out @ [filename i eng dev q]"
  have 1: "(\<forall>k. newPage_ok (ps k) \<and> close_ok (ps k))
       \<longrightarrow> snd (processQuery q i eng dev ps out dly chrome qual) = Normal"
    using processQuery_no_escape by blast
  have 2: "(\<forall>j k. newPage_ok (pgs j k) \<and> close_ok (pgs j k))
       \<longrightarrow> snd (batchLoop eng dev pgs out dly chrome qual qs 0) = Normal
           \<and> map given (tasks_of (fst (batchLoop eng dev pgs out dly chrome qual qs 0)))
               = zip qs [0 ..< length qs]"
    using batchLoop_all[of pgs eng dev out dly chrome qual qs 0] by simp
  have 3: "(\<forall>k. newPage_ok (ps k) \<and> close_ok (ps k)
            \<and> snd (tryBlock ?url dev ?fp dly chrome qual (ps k)) = Throw)
       \<longrightarrow> Console Failed \<in> set (fst (processQuery q i eng dev ps out dly chrome qual))
           \<and> snd (processQuery q i eng dev ps out dly chrome qual) = Normal"
  proof
    assume H: "\<forall>k. newPage_ok (ps k) \<and> close_ok (ps k)
            \<and> snd (tryBlock ?url dev ?fp dly chrome qual (ps k)) = Throw"
    from whileLoop_all_throw[OF H, of 0 maxRetries 0] obtain pre where
      "snd (whileLoop ?url dev ?fp dly chrome qual ps 0 0 False) = Normal"
      "fst (whileLoop ?url dev ?fp dly chrome qual ps 0 0 False) = pre @ [Console Failed, ClosePage]"
      by auto
    then show "Console Failed \<in> set (fst (processQuery q i eng dev ps out dly chrome qual))
           \<and> snd (processQuery q i eng dev ps out dly chrome qual) = Normal"
      by (simp add: processQuery_def)
  qed
  have 4: "(\<forall>k. captcha_seen (ps k) \<and> close_ok (ps k))
       \<longrightarrow> attempts (fst (processQuery q i eng dev ps out dly False qual)) = maxRetries + 1
           \<and> snd (processQuery q i eng dev ps out dly False qual) = Normal
           \<and> Console Failed \<notin> set (fst (processQuery q i eng dev ps out dly False qual))"
  proof
    assume H: "\<forall>k. captcha_seen (ps k) \<and> close_ok (ps k)"
    note w = whileLoop_all_captcha[OF H, of 0 maxRetries ?url dev ?fp dly qual 0]
    have "\<not> captcha_event ?url (Console Failed)" by (simp add: captcha_event_def)
    then have "Console Failed \<notin> set (fst (whileLoop ?url dev ?fp dly False qual ps 0 0 False))"
      using w by auto
    then show "attempts (fst (processQuery q i eng dev ps out dly False qual)) = maxRetries + 1
           \<and> snd (processQuery q i eng dev ps out dly False qual) = Normal
           \<and> Console Failed \<notin> set (fst (processQuery q i eng dev ps out dly False qual))"
      using w by (simp add: processQuery_def)
  qed
  have 5: "\<not> newPage_ok (ps 0)
       \<longrightarrow> processQuery q i eng dev ps out dly chrome qual = ([NewPage], Throw)"
    using processQuery_not_opened by blast
  have 6: "newPage_ok (ps 0) \<and> \<not> close_ok (ps 0)
       \<longrightarrow> snd (processQuery q i eng dev ps out dly chrome qual) = Throw"
    using processQuery_escape by blast
  have 7: "n < length qs
        \<and> snd (processQuery (qs ! n) n eng dev (pgs n) out dly chrome qual) = Throw
       \<longrightarrow> snd (batchLoop eng dev pgs out dly chrome qual qs 0) = Throw"
    using batchLoop_reject[of 0 n qs eng dev pgs out dly chrome qual] by simp
  have 8: "headers s = Some hdrs \<and> rows s = Some rws
        \<and> m < length (queries (queryColIndex (column a) hdrs) rws)
        \<and> snd (processQuery (queries (queryColIndex (column a) hdrs) rws ! m) m (engine a)
                 (if mode a = ''mobile'' then ''mobile'' else ''desktop'') (pages s m)
                 [output_arg a, runDir (now s) (engine a)] (delay a) (useChrome a) (quality a))
            = Throw
       \<longrightarrow> snd (generateSearchScreenshots a s) = Throw
           \<and> ContextClose \<notin> set (fst (generateSearchScreenshots a s))"
    using generate_reject[of s hdrs rws m a] by blast
  from 1 2 3 4 5 6 7 8 show ?thesis by (simp only: simp_thms)
qed

text \<open>Four queries whose navigation always fails: every task resolves, every query is
  processed, and the first is reported as failed.\<close>

theorem failures_caught_in_try_block_witness:
  "snd (processQuery ''foo'' 0 ''yahoo'' ''mobile'' pages_never_load [''shots'', ''run'']
          1 False 80) = Normal
   \<and> Console Failed \<in> set (fst (processQuery ''foo'' 0 ''yahoo'' ''mobile'' pages_never_load
                                   [''shots'', ''run''] 1 False 80))
   \<and> snd (batchLoop ''yahoo'' ''mobile'' (\<lambda>j. pages_never_load) [''shots'', ''run''] 1 False 80
            [''foo'', ''bar'', ''baz'', ''qux''] 0) = Normal
   \<and> map given (tasks_of (fst (batchLoop ''yahoo'' ''mobile'' (\<lambda>j. pages_never_load)
            [''shots'', ''run''] 1 False 80 [''foo'', ''bar'', ''baz'', ''qux''] 0)))
       = [(''foo'', 0), (''bar'', 1), (''baz'', 2), (''qux'', 3)]
   \<and> captcha_seen (pages_captcha_always 0)
   \<and> Console Failed \<notin> set (fst (processQuery ''foo'' 0 ''yahoo'' ''mobile'' pages_captcha_always
                                   [''shots'', ''run''] 1 False 80))"
proof -
  have H: "\<forall>k. newPage_ok (pages_never_load k) \<and> close_ok (pages_never_load k)"
    by (simp add: pages_never_load_def page_ok_def)
  then have H': "\<forall>j k. newPage_ok ((\<lambda>j. pages_never_load) j k)
      \<and> close_ok ((\<lambda>j. pages_never_load) j k)"
    by simp
  have T: "\<forall>k. newPage_ok (pages_never_load k) \<and> close_ok (pages_never_load k)
      \<and> snd (tryBlock (searchUrl ''yahoo'' ''foo'') ''mobile''
                ([''shots'', ''run''] @ [filename 0 ''yahoo'' ''mobile'' ''foo'']) 1 False 80
                (pages_never_load k)) = Throw"
    by (simp add: pages_never_load_def page_ok_def tryBlock_def andThen_def call_def)
  have C: "\<forall>k. captcha_seen (pages_captcha_always k) \<and> close_ok (pages_captcha_always k)"
    by (simp add: pages_captcha_always_def page_ok_def captcha_seen_def)
  have z: "zip [''foo'', ''bar'', ''baz'', ''qux''] [0 ..< length [''foo'', ''bar'', ''baz'', ''qux'']]
      = [(''foo'', 0), (''bar'', 1), (''baz'', 2), (''qux'', 3::nat)]"
    by code_simp
  note t = failures_caught_in_try_block [of pages_never_load "''foo''" 0 "''yahoo''" "''mobile''"
      "[''shots'', ''run'']" 1 False 80 "\<lambda>j. pages_never_load"
      "[''foo'', ''bar'', ''baz'', ''qux'']"]
  from t H have a: "snd (processQuery ''foo'' 0 ''yahoo'' ''mobile'' pages_never_load
      [''shots'', ''run''] 1 False 80) = Normal"
    by blast
  from t T have f: "Console Failed \<in> set (fst (processQuery ''foo'' 0 ''yahoo'' ''mobile''
      pages_never_load [''shots'', ''run''] 1 False 80))"
    by blast
  from t H' have b: "snd (batchLoop ''yahoo'' ''mobile'' (\<lambda>j. pages_never_load) [''shots'', ''run'']
        1 False 80 [''foo'', ''bar'', ''baz'', ''qux''] 0) = Normal
      \<and> map given (tasks_of (fst (batchLoop ''yahoo'' ''mobile'' (\<lambda>j. pages_never_load)
            [''shots'', ''run''] 1 False 80 [''foo'', ''bar'', ''baz'', ''qux''] 0)))
        = zip [''foo'', ''bar'', ''baz'', ''qux''] [0 ..< length [''foo'', ''bar'', ''baz'', ''qux'']]"
    by blast
  from failures_caught_in_try_block [of pages_captcha_always "''foo''" 0 "''yahoo''" "''mobile''"
      "[''shots'', ''run'']" 1 False 80] C
  have c: "Console Failed \<notin> set (fst (processQuery ''foo'' 0 ''yahoo'' ''mobile''
      pages_captcha_always [''shots'', ''run''] 1 False 80))"
    by blast
  from C have s: "captcha_seen (pages_captcha_always 0)" by simp
  from a f b z s c show ?thesis by (simp only: simp_thms)
qed

text \<open>
  The claim as stated fails where a page does not open.  Four queries, batches of three; the
  page of the first query cannot be opened.  Its task rejects after the one call, the batch
  and the run reject with it, the fourth query is never processed and the context is not
  closed.
\<close>

theorem page_open_failure_counterexample:
  "snd (generateSearchScreenshots args_default session_first_fails) = Throw
   \<and> hd (tasks_of (fst (generateSearchScreenshots args_default session_first_fails)))
       = Task ''foo'' 0 [NewPage] Throw
   \<and> map given (tasks_of (fst (generateSearchScreenshots args_default session_first_fails)))
       = [(''foo'', 0), (''bar'', 1), (''baz'', 2)]
   \<and> ContextClose \<notin> set (fst (generateSearchScreenshots args_default session_first_fails))"
  by code_simp

section \<open>Batch size\<close>

text \<open>Whatever the browser does, a batch holds at least one and at most \<open>batchSize\<close> tasks;
  the batch size is 1 under the \<open>useChrome\<close> flag, hence in every persistent-context session,
  and never more than 3.\<close>

lemma batch_bounds:
  "b \<in> set (batches_of (fst (batchLoop eng dev pgs out dly chrome qual qs i)))
     \<Longrightarrow> 1 \<le> length b \<and> length b \<le> batchSize chrome"
proof (induction eng dev pgs out dly chrome qual qs i rule: batchLoop.induct)
  case (1 eng dev pgs out dly chrome qual qs i)
  show ?case
  proof (cases "i < length qs")
    case False
    then show ?thesis using "1.prems" by (simp add: batchLoop_exit)
  next
    case True
    let ?ts = "batchTasks eng dev pgs out dly chrome qual i (take (batchSize chrome) (drop i qs))"
    have l: "1 \<le> length ?ts \<and> length ?ts \<le> batchSize chrome"
      using True by (simp add: length_batchTasks batchSize_def)
    have "fst (batchLoop eng dev pgs out dly chrome qual qs i)
        = (if promiseAll ?ts = Normal
           then Batch ?ts # fst (batchLoop eng dev pgs out dly chrome qual qs (i + batchSize chrome))
           else [Batch ?ts])"
      using batchLoop_unfold[OF True, of eng dev pgs out dly chrome qual]
      by (simp add: andThen_def)
    then have "b = ?ts
        \<or> b \<in> set (batches_of (fst (batchLoop eng dev pgs out dly chrome qual qs (i + batchSize chrome))))"
      using "1.prems" by (auto split: if_splits)
    then show ?thesis using l "1.IH"[OF True refl refl] by blast
  qed
qed

lemma batchSize_bounds:
  "batchSize chrome \<le> 3 \<and> (chrome \<longrightarrow> batchSize chrome = 1) \<and> (\<not> chrome \<longrightarrow> batchSize chrome = 3)"
  by (simp add: batchSize_def)

text \<open>
  C3 at a run with \<^verbatim>\<open>--use-chrome --engine=bing\<close> and two queries.  The session is headless
  (the browser is launched and a context created; no persistent context), yet the two
  queries run in two batches of one task each: the batch size follows the \<open>useChrome\<close> flag,
  not the mode of the session.
\<close>

theorem batch_size_follows_flag:
  "map length (batches_of (fst (generateSearchScreenshots args_bing_chrome session_ok))) = [1, 1]
   \<and> Launch \<in> set (fst (generateSearchScreenshots args_bing_chrome session_ok))
   \<and> NewContext \<in> set (fst (generateSearchScreenshots args_bing_chrome session_ok))
   \<and> useChrome args_bing_chrome
   \<and> engine args_bing_chrome = ''bing''"
  by code_simp

section \<open>Compare mode\<close>

text \<open>
  C4, as the code has it.  Compare mode runs the Yahoo pass first, with \<open>useChrome\<close> off, and
  starts the second pass only when the first has resolved; when the first rejects there is no
  second pass.  The second pass runs against the requested engine, or against Google when the
  requested engine is Yahoo, and with the requested \<open>useChrome\<close> flag when its engine is
  Google and with the flag off otherwise.  The first pass never launches a persistent context.
  Each pass begins by creating its run directory; for the engines the command line accepts,
  the two directories differ, whatever the two time stamps are.
\<close>

theorem compare_mode_passes:
  "(snd (generateSearchScreenshots (a\<lparr>engine := ''yahoo'', useChrome := False\<rparr>) s1) = Normal
      \<longrightarrow> fst (runCompareMode a s1 s2)
           = [Pass (a\<lparr>engine := ''yahoo'', useChrome := False\<rparr>)
                (fst (generateSearchScreenshots (a\<lparr>engine := ''yahoo'', useChrome := False\<rparr>) s1)),
              Pass (a\<lparr>engine := (if engine a = ''yahoo'' then ''google'' else engine a),
                     useChrome := (useChrome a \<and> (engine a = ''yahoo'' \<or> engine a = ''google''))\<rparr>)
                (fst (generateSearchScreenshots
                   (a\<lparr>engine := (if engine a = ''yahoo'' then ''google'' else engine a),
                      useChrome := (useChrome a \<and> (engine a = ''yahoo'' \<or> engine a = ''google''))\<rparr>)
                   s2))])
   \<and> (snd (generateSearchScreenshots (a\<lparr>engine := ''yahoo'', useChrome := False\<rparr>) s1) \<noteq> Normal
      \<longrightarrow> runCompareMode a s1 s2
           = ([Pass (a\<lparr>engine := ''yahoo'', useChrome := False\<rparr>)
                (fst (generateSearchScreenshots (a\<lparr>engine := ''yahoo'', useChrome := False\<rparr>) s1))],
              snd (generateSearchScreenshots (a\<lparr>engine := ''yahoo'', useChrome := False\<rparr>) s1)))
   \<and> (\<forall>d. LaunchPersistentContext d
          \<notin> set (fst (generateSearchScreenshots (a\<lparr>engine := ''yahoo'', useChrome := False\<rparr>) s1)))
   \<and> (\<exists>es. fst (generateSearchScreenshots (a\<lparr>engine := ''yahoo'', useChrome := False\<rparr>) s1)
           = Mkdir [output_arg a, runDir (now s1) ''yahoo''] # es)
   \<and> (\<exists>es. fst (generateSearchScreenshots
                 (a\<lparr>engine := (if engine a = ''yahoo'' then ''google'' else engine a),
                    useChrome := (useChrome a \<and> (engine a = ''yahoo'' \<or> engine a = ''google''))\<rparr>) s2)
           = Mkdir [output_arg a,
                    runDir (now s2) (if engine a = ''yahoo'' then ''google'' else engine a)] # es)
   \<and> (engine a \<in> {''google'', ''bing'', ''duckduckgo'', ''yahoo''}
      \<longrightarrow> [output_arg a, runDir (now s1) ''yahoo'']
           \<noteq> [output_arg a, runDir (now s2) (if engine a = ''yahoo'' then ''google'' else engine a)])"
proof -
  let ?y = "a\<lparr>engine := ''yahoo'', useChrome := False\<rparr>"
  let ?e = "if engine a = ''yahoo'' then ''google'' else engine a"
  let ?c = "a\<lparr>engine := ?e, useChrome := (useChrome a \<and> (engine a = ''yahoo'' \<or> engine a = ''google''))\<rparr>"
  have c: "a\<lparr>engine := ?e, useChrome := (if ?e = ''google'' then useChrome a else False)\<rparr> = ?c"
    by simp
  have r: "runCompareMode a s1 s2 = andThen (runPass ?y s1) (runPass ?c s2)"
    unfolding runCompareMode_def Let_def c ..
  have 1: "snd (generateSearchScreenshots ?y s1) = Normal
      \<longrightarrow> fst (runCompareMode a s1 s2)
           = [Pass ?y (fst (generateSearchScreenshots ?y s1)),
              Pass ?c (fst (generateSearchScreenshots ?c s2))]"
    unfolding r by (simp add: runPass_def andThen_def split_def)
  have 2: "snd (generateSearchScreenshots ?y s1) \<noteq> Normal
      \<longrightarrow> runCompareMode a s1 s2
           = ([Pass ?y (fst (generateSearchScreenshots ?y s1))],
              snd (generateSearchScreenshots ?y s1))"
    unfolding r by (simp add: runPass_def andThen_def split_def)
  have 3: "\<forall>d. LaunchPersistentContext d \<notin> set (fst (generateSearchScreenshots ?y s1))"
    using generate_persistent[of _ ?y s1] by auto
  have 4: "\<exists>es. fst (generateSearchScreenshots ?y s1)
           = Mkdir [output_arg a, runDir (now s1) ''yahoo''] # es"
    using generate_first_event[of ?y s1] by simp
  have 5: "\<exists>es. fst (generateSearchScreenshots ?c s2) = Mkdir [output_arg a, runDir (now s2) ?e] # es"
    using generate_first_event[of ?c s2] by simp
  have 6: "engine a \<in> {''google'', ''bing'', ''duckduckgo'', ''yahoo''}
      \<longrightarrow> [output_arg a, runDir (now s1) ''yahoo''] \<noteq> [output_arg a, runDir (now s2) ?e]"
  proof
    assume "engine a \<in> {''google'', ''bing'', ''duckduckgo'', ''yahoo''}"
    then have "?e \<in> {''google'', ''bing'', ''duckduckgo''}" by auto
    then have "runDir (now s1) ''yahoo'' \<noteq> runDir (now s2) ?e" by (rule runDir_distinct)
    then show "[output_arg a, runDir (now s1) ''yahoo''] \<noteq> [output_arg a, runDir (now s2) ?e]"
      by simp
  qed
  from 1 2 3 4 5 6 show ?thesis by (simp only: simp_thms)
qed

text \<open>The scenario of the specification: Google requested with the flag on, both passes at
  the same second.\<close>

theorem compare_mode_passes_witness:
  "snd (generateSearchScreenshots (args_google_chrome\<lparr>engine := ''yahoo'', useChrome := False\<rparr>)
          session_ok) = Normal
   \<and> map p_args (fst (runCompareMode args_google_chrome session_ok session_ok))
       = [args_google_chrome\<lparr>engine := ''yahoo'', useChrome := False\<rparr>, args_google_chrome]
   \<and> engine args_google_chrome \<in> {''google'', ''bing'', ''duckduckgo'', ''yahoo''}
   \<and> [output_arg args_google_chrome, runDir (now session_ok) ''yahoo'']
       \<noteq> [output_arg args_google_chrome, runDir (now session_ok) ''google'']"
proof -
  let ?y = "args_google_chrome\<lparr>engine := ''yahoo'', useChrome := False\<rparr>"
  have n: "snd (generateSearchScreenshots ?y session_ok) = Normal" by code_simp
  have g: "engine args_google_chrome = ''google''" and u: "useChrome args_google_chrome"
    by (simp_all add: args_google_chrome_def args_default_def)
  have m: "engine args_google_chrome \<in> {''google'', ''bing'', ''duckduckgo'', ''yahoo''}"
    using g by simp
  have c: "args_google_chrome\<lparr>engine := (if engine args_google_chrome = ''yahoo'' then ''google''
                 else engine args_google_chrome),
             useChrome := (useChrome args_google_chrome
                 \<and> (engine args_google_chrome = ''yahoo'' \<or> engine args_google_chrome = ''google''))\<rparr>
           = args_google_chrome"
    using g u by simp
  note t = compare_mode_passes [of args_google_chrome session_ok session_ok]
  from t n have "fst (runCompareMode args_google_chrome session_ok session_ok)
      = [Pass ?y (fst (generateSearchScreenshots ?y session_ok)),
         Pass args_google_chrome (fst (generateSearchScreenshots args_google_chrome session_ok))]"
    unfolding c by blast
  then have p: "map p_args (fst (runCompareMode args_google_chrome session_ok session_ok))
      = [?y, args_google_chrome]"
    by simp
  from t m have "[output_arg args_google_chrome, runDir (now session_ok) ''yahoo'']
      \<noteq> [output_arg args_google_chrome, runDir (now session_ok)
            (if engine args_google_chrome = ''yahoo'' then ''google'' else engine args_google_chrome)]"
    by blast
  then have d: "[output_arg args_google_chrome, runDir (now session_ok) ''yahoo'']
      \<noteq> [output_arg args_google_chrome, runDir (now session_ok) ''google'']"
    using g by simp
  from n p m d show ?thesis by (simp only: simp_thms)
qed

text \<open>
  The claim as stated fails when the requested engine is Yahoo itself: the second pass then
  runs against Google, which the user did not request.
\<close>

theorem compare_engine_counterexample:
  "engine args_compare_yahoo = ''yahoo''
   \<and> map engine (map p_args (fst (runCompareMode args_compare_yahoo session_ok session_ok)))
       = [''yahoo'', ''google'']"
  by code_simp

section \<open>The life cycle of the capture session\<close>

text \<open>
  C5, as the code has it.  Every run follows the life cycle of the session: the session is
  acquired once and before any batch, and no batch runs after the context has been closed.
  When the set-up and the closing of the context succeed and no exception leaves a task (every
  page opens and closes), the session is torn down at the end whatever the outcomes of the
  queries are: in a run without the \<open>useChrome\<close> flag the context is closed and
  \<^verbatim>\<open>browser.close()\<close> is called after it; in a persistent-context run (the flag with the
  engine Google) the context is closed, and that is the whole teardown.  The run resolves
  when these calls do.  When an exception leaves a
  task, the run rejects and neither the context nor the browser is closed.
\<close>

theorem session_lifecycle:
  "lifecycle NoSession (fst (generateSearchScreenshots a s))
   \<and> (mkdir_ok s \<and> headers s \<noteq> None \<and> rows s \<noteq> None
        \<and> snd (acquire (useChrome a \<and> engine a = ''google'') s) = Normal
        \<and> (\<forall>i k. newPage_ok (pages s i k) \<and> close_ok (pages s i k))
        \<and> contextClose_ok s
      \<longrightarrow> (\<not> useChrome a
             \<longrightarrow> (\<exists>pre. fst (generateSearchScreenshots a s) = pre @ [ContextClose, BrowserClose]))
          \<and> (useChrome a \<and> engine a = ''google''
             \<longrightarrow> (\<exists>pre. fst (generateSearchScreenshots a s) = pre @ [ContextClose]))
          \<and> (browserClose_ok s \<longrightarrow> snd (generateSearchScreenshots a s) = Normal))
   \<and> (headers s = Some hdrs \<and> rows s = Some rws
        \<and> n < length (queries (queryColIndex (column a) hdrs) rws)
        \<and> snd (processQuery (queries (queryColIndex (column a) hdrs) rws ! n) n (engine a)
                 (if mode a = ''mobile'' then ''mobile'' else ''desktop'') (pages s n)
                 [output_arg a, runDir (now s) (engine a)] (delay a) (useChrome a) (quality a))
            = Throw
      \<longrightarrow> snd (generateSearchScreenshots a s) = Throw
          \<and> ContextClose \<notin> set (fst (generateSearchScreenshots a s))
          \<and> BrowserClose \<notin> set (fst (generateSearchScreenshots a s)))"
proof -
  have 1: "lifecycle NoSession (fst (generateSearchScreenshots a s))"
    by (rule lifecycle_generate)
  have 2: "mkdir_ok s \<and> headers s \<noteq> None \<and> rows s \<noteq> None
        \<and> snd (acquire (useChrome a \<and> engine a = ''google'') s) = Normal
        \<and> (\<forall>i k. newPage_ok (pages s i k) \<and> close_ok (pages s i k))
        \<and> contextClose_ok s
      \<longrightarrow> (\<not> useChrome a
             \<longrightarrow> (\<exists>pre. fst (generateSearchScreenshots a s) = pre @ [ContextClose, BrowserClose]))
          \<and> (useChrome a \<and> engine a = ''google''
             \<longrightarrow> (\<exists>pre. fst (generateSearchScreenshots a s) = pre @ [ContextClose]))
          \<and> (browserClose_ok s \<longrightarrow> snd (generateSearchScreenshots a s) = Normal)"
  proof
    assume H: "mkdir_ok s \<and> headers s \<noteq> None \<and> rows s \<noteq> None
        \<and> snd (acquire (useChrome a \<and> engine a = ''google'') s) = Normal
        \<and> (\<forall>i k. newPage_ok (pages s i k) \<and> close_ok (pages s i k))
        \<and> contextClose_ok s"
    then obtain hd' rw' where hr: "headers s = Some hd'" "rows s = Some rw'" by auto
    from H have m: "mkdir_ok s"
      and q: "snd (acquire (useChrome a \<and> engine a = ''google'') s) = Normal"
      and p: "\<forall>i k. newPage_ok (pages s i k) \<and> close_ok (pages s i k)"
      and c: "contextClose_ok s"
      by simp_all
    note g = generate_teardown[OF m hr q p c]
    from g(1) obtain pre where
      e: "fst (generateSearchScreenshots a s)
            = pre @ ContextClose # (if useChrome a then [] else [BrowserClose])"
      by blast
    have x: "\<not> useChrome a
        \<longrightarrow> (\<exists>pre. fst (generateSearchScreenshots a s) = pre @ [ContextClose, BrowserClose])"
      using e by auto
    have y: "useChrome a \<and> engine a = ''google''
        \<longrightarrow> (\<exists>pre. fst (generateSearchScreenshots a s) = pre @ [ContextClose])"
      using e by auto
    from x y g(2) show "(\<not> useChrome a
             \<longrightarrow> (\<exists>pre. fst (generateSearchScreenshots a s) = pre @ [ContextClose, BrowserClose]))
          \<and> (useChrome a \<and> engine a = ''google''
             \<longrightarrow> (\<exists>pre. fst (generateSearchScreenshots a s) = pre @ [ContextClose]))
          \<and> (browserClose_ok s \<longrightarrow> snd (generateSearchScreenshots a s) = Normal)"
      by blast
  qed
  have 3: "headers s = Some hdrs \<and> rows s = Some rws
        \<and> n < length (queries (queryColIndex (column a) hdrs) rws)
        \<and> snd (processQuery (queries (queryColIndex (column a) hdrs) rws ! n) n (engine a)
                 (if mode a = ''mobile'' then ''mobile'' else ''desktop'') (pages s n)
                 [output_arg a, runDir (now s) (engine a)] (delay a) (useChrome a) (quality a))
            = Throw
      \<longrightarrow> snd (generateSearchScreenshots a s) = Throw
          \<and> ContextClose \<notin> set (fst (generateSearchScreenshots a s))
          \<and> BrowserClose \<notin> set (fst (generateSearchScreenshots a s))"
    using generate_reject[of s hdrs rws n a] by blast
  from 1 2 3 show ?thesis by (simp only: simp_thms)
qed

text \<open>A headless run of two queries ends by closing the context and then the browser; a
  persistent-context run of the same queries ends by closing the context.\<close>

theorem session_lifecycle_witness:
  "lifecycle NoSession (fst (generateSearchScreenshots args_default session_ok))
   \<and> \<not> useChrome args_default
   \<and> last (fst (generateSearchScreenshots args_default session_ok)) = BrowserClose
   \<and> snd (generateSearchScreenshots args_default session_ok) = Normal
   \<and> useChrome args_google_chrome
   \<and> engine args_google_chrome = ''google''
   \<and> last (fst (generateSearchScreenshots args_google_chrome session_ok)) = ContextClose
   \<and> snd (generateSearchScreenshots args_google_chrome session_ok) = Normal"
proof -
  have u: "\<not> useChrome args_default" by (simp add: args_default_def)
  have H: "mkdir_ok session_ok \<and> headers session_ok \<noteq> None \<and> rows session_ok \<noteq> None
        \<and> snd (acquire (useChrome args_default \<and> engine args_default = ''google'') session_ok) = Normal
        \<and> (\<forall>i k. newPage_ok (pages session_ok i k) \<and> close_ok (pages session_ok i k))
        \<and> contextClose_ok session_ok"
    by (simp add: session_ok_def page_ok_def args_default_def acquire_def andThen_def call_def)
  have b: "browserClose_ok session_ok" by (simp add: session_ok_def)
  note t = session_lifecycle [of args_default session_ok]
  from t have l: "lifecycle NoSession (fst (generateSearchScreenshots args_default session_ok))"
    by (rule conjunct1)
  from t H b u obtain pre where
    e: "fst (generateSearchScreenshots args_default session_ok) = pre @ [ContextClose, BrowserClose]"
    and n: "snd (generateSearchScreenshots args_default session_ok) = Normal"
    by blast
  from e have x: "last (fst (generateSearchScreenshots args_default session_ok)) = BrowserClose"
    by simp
  have g: "engine args_google_chrome = ''google''" and c: "useChrome args_google_chrome"
    by (simp_all add: args_google_chrome_def args_default_def)
  have G: "mkdir_ok session_ok \<and> headers session_ok \<noteq> None \<and> rows session_ok \<noteq> None
        \<and> snd (acquire (useChrome args_google_chrome \<and> engine args_google_chrome = ''google'')
                 session_ok) = Normal
        \<and> (\<forall>i k. newPage_ok (pages session_ok i k) \<and> close_ok (pages session_ok i k))
        \<and> contextClose_ok session_ok"
    using g c by (simp add: session_ok_def page_ok_def acquire_def andThen_def call_def)
  from session_lifecycle [of args_google_chrome session_ok] G b g c obtain pre' where
    e': "fst (generateSearchScreenshots args_google_chrome session_ok) = pre' @ [ContextClose]"
    and n': "snd (generateSearchScreenshots args_google_chrome session_ok) = Normal"
    by blast
  from e' have x': "last (fst (generateSearchScreenshots args_google_chrome session_ok)) = ContextClose"
    by simp
  from l u x n c g x' n' show ?thesis by (simp only: simp_thms)
qed

text \<open>
  The claim as stated fails when an exception leaves a task.  Two queries in one batch; the
  page of the second query takes its screenshot and then fails to close.  The task rejects,
  the run rejects with it, and neither the context nor the browser that was launched is
  closed.
\<close>

theorem teardown_skipped_counterexample:
  "snd (generateSearchScreenshots args_default session_close_fails) = Throw
   \<and> Launch \<in> set (fst (generateSearchScreenshots args_default session_close_fails))
   \<and> NewContext \<in> set (fst (generateSearchScreenshots args_default session_close_fails))
   \<and> map t_end (tasks_of (fst (generateSearchScreenshots args_default session_close_fails)))
       = [Normal, Throw]
   \<and> ContextClose \<notin> set (fst (generateSearchScreenshots args_default session_close_fails))
   \<and> BrowserClose \<notin> set (fst (generateSearchScreenshots args_default session_close_fails))"
  by code_simp

section \<open>CAPTCHA on a run without the Chrome flag\<close>

text \<open>
  C6, as the code has it.  Let the \<open>useChrome\<close> flag be off and let an attempt open its page,
  load it and detect a CAPTCHA.  Then the attempt consists of exactly the calls listed below:
  no pre-capture delay, no screenshot and no backoff; the retry counter is incremented and the
  page is closed.  When the page closes and the budget is not exhausted, the next call of the
  task opens a fresh page.  The backoff of 1000 ms occurs in an attempt exactly when its
  \<^verbatim>\<open>try\<close> block throws and a retry remains: it separates only the retries that follow an
  exception.
\<close>

theorem captcha_retry:
  assumes "captcha_seen p"
  shows
  "iteration url dev fp dly False qual p r
      = ([NewPage, Goto url, RandomWait (randomWait p), WaitForLoadState, Evaluate,
          Console CaptchaDetected, ClosePage], r + 1, False, \<not> close_ok p)
   \<and> (ps k = p \<and> close_ok p \<and> r + 1 \<le> maxRetries
       \<longrightarrow> (\<exists>rest. fst (whileLoop url dev fp dly False qual ps k r False)
                    = [NewPage, Goto url, RandomWait (randomWait p), WaitForLoadState, Evaluate,
                       Console CaptchaDetected, ClosePage] @ NewPage # rest))
   \<and> (Backoff n \<in> set (fst (iteration url' dev' fp' dly' chrome' qual' p' r'))
       \<longleftrightarrow> n = 1000 \<and> newPage_ok p' \<and> snd (tryBlock url' dev' fp' dly' chrome' qual' p') = Throw
            \<and> r' + 1 \<le> maxRetries)"
proof -
  let ?es = "[NewPage, Goto url, RandomWait (randomWait p), WaitForLoadState, Evaluate,
          Console CaptchaDetected, ClosePage]"
  have 1: "iteration url dev fp dly False qual p r = (?es, r + 1, False, \<not> close_ok p)"
    using assms by (rule iteration_captcha)
  have 2: "ps k = p \<and> close_ok p \<and> r + 1 \<le> maxRetries
       \<longrightarrow> (\<exists>rest. fst (whileLoop url dev fp dly False qual ps k r False) = ?es @ NewPage # rest)"
  proof
    assume H: "ps k = p \<and> close_ok p \<and> r + 1 \<le> maxRetries"
    then have it: "iteration url dev fp dly False qual (ps k) r = (?es, r + 1, False, False)"
      using 1 by simp
    have le: "r \<le> maxRetries" using H by simp
    obtain rest where n: "fst (whileLoop url dev fp dly False qual ps (k + 1) (r + 1) False)
        = NewPage # rest"
      using whileLoop_starts[of "r + 1" url dev fp dly False qual ps "k + 1"] H by auto
    from whileLoop_unfold[where ps=ps and k=k, OF le it] n
    have "fst (whileLoop url dev fp dly False qual ps k r False) = ?es @ NewPage # rest"
      by simp
    then show "\<exists>rest. fst (whileLoop url dev fp dly False qual ps k r False) = ?es @ NewPage # rest"
      by blast
  qed
  have 3: "Backoff n \<in> set (fst (iteration url' dev' fp' dly' chrome' qual' p' r'))
       \<longleftrightarrow> n = 1000 \<and> newPage_ok p' \<and> snd (tryBlock url' dev' fp' dly' chrome' qual' p') = Throw
            \<and> r' + 1 \<le> maxRetries"
    by (rule iteration_Backoff)
  from 1 2 3 show ?thesis by (simp only: simp_thms)
qed

text \<open>A first attempt that meets a CAPTCHA, followed by a page without one.\<close>

theorem captcha_retry_witness:
  "captcha_seen (pages_captcha_once 0)
   \<and> close_ok (pages_captcha_once 0)
   \<and> (0::nat) + 1 \<le> maxRetries
   \<and> take 8 (fst (whileLoop ''u'' ''mobile'' [''f''] 1 False 80 pages_captcha_once 0 0 False))
       = [NewPage, Goto ''u'', RandomWait 700, WaitForLoadState, Evaluate,
          Console CaptchaDetected, ClosePage, NewPage]"
proof -
  let ?p = "pages_captcha_once 0"
  have c: "captcha_seen ?p"
    by (simp add: captcha_seen_def pages_captcha_once_def page_ok_def)
  have o: "close_ok ?p" by (simp add: pages_captcha_once_def page_ok_def)
  have b: "(0::nat) + 1 \<le> maxRetries" by (simp add: maxRetries_def)
  have w: "randomWait ?p = 700" by (simp add: pages_captcha_once_def page_ok_def)
  from captcha_retry [OF c, of "''u''" "''mobile''" "[''f'']" 1 80 0 pages_captcha_once 0] o b
  obtain rest where
    "fst (whileLoop ''u'' ''mobile'' [''f''] 1 False 80 pages_captcha_once 0 0 False)
       = [NewPage, Goto ''u'', RandomWait (randomWait ?p), WaitForLoadState, Evaluate,
          Console CaptchaDetected, ClosePage] @ NewPage # rest"
    by blast
  then have "take 8 (fst (whileLoop ''u'' ''mobile'' [''f''] 1 False 80 pages_captcha_once 0 0 False))
       = [NewPage, Goto ''u'', RandomWait 700, WaitForLoadState, Evaluate,
          Console CaptchaDetected, ClosePage, NewPage]"
    using w by simp
  with c o b show ?thesis by (simp only: simp_thms)
qed

text \<open>
  The claim as stated fails on the backoff: the retry that follows a CAPTCHA starts at once.
  The second page is opened right after the first is closed, with no \<open>Backoff\<close> between them.
\<close>

theorem captcha_no_backoff_counterexample:
  "processQuery ''foo'' 0 ''yahoo'' ''mobile'' pages_captcha_once [''shots'', ''run''] 1 False 80
     = ([NewPage, Goto ''https://search.yahoo.com/search?p=foo'', RandomWait 700, WaitForLoadState,
         Evaluate, Console CaptchaDetected, ClosePage,
         NewPage, Goto ''https://search.yahoo.com/search?p=foo'', RandomWait 700, WaitForLoadState,
         Evaluate, DelayWait 1000,
         Screenshot [''shots'', ''run'', ''001_yahoo_mobile_foo.jpg''] 80 390,
         Console (Saved [''shots'', ''run'', ''001_yahoo_mobile_foo.jpg'']), ClosePage],
        Normal)"
  by code_simp

end
